theory Spec2Isabelle
  imports Complex_Main
begin

section \<open>Text and bytes\<close>

text \<open>
  The serial port delivers Python \<open>bytes\<close>; a byte is a \<^typ>\<open>char\<close> (eight bits).
  A Python \<open>str\<close> is a sequence of Unicode code points, so the decoded text is a list of
  natural numbers. String literals of the source are ASCII and are written with
  \<open>str\<close>.
\<close>

type_synonym bytes = "char list"
type_synonym codepoint = nat
type_synonym pystr = "codepoint list"

definition str :: "string \<Rightarrow> pystr" where
  "str s = map of_char s"

definition DOT :: codepoint where
  "DOT = 46"

definition COMMA :: codepoint where
  "COMMA = 44"

subsection \<open>\<open>bytes.decode("utf-8", errors="ignore")\<close>\<close>

definition is_continuation :: "nat \<Rightarrow> bool" where
  "is_continuation b \<longleftrightarrow> 128 \<le> b \<and> b < 192"

text \<open>
  One step of the UTF-8 decoder on the byte values \<open>b # bs\<close>: either a code point and
  the number of bytes it took, or \<open>None\<close> and the number of bytes the error handler
  \<open>ignore\<close> skips (an invalid start byte, an invalid continuation byte, or a sequence
  cut off by the end of the data). Overlong forms, surrogates and code points beyond
  U+10FFFF are invalid.
\<close>

fun utf8_first :: "nat list \<Rightarrow> codepoint option \<times> nat" where
  "utf8_first [] = (None, 0)"
| "utf8_first (b # bs) =
    (if b < 128 then (Some b, 1)
     else if b < 194 then (None, 1)
     else if b < 224 then
       (case bs of
          [] \<Rightarrow> (None, 1)
        | b2 # _ \<Rightarrow>
            if is_continuation b2 then (Some ((b - 192) * 64 + (b2 - 128)), 2)
            else (None, 1))
     else if b < 240 then
       (case bs of
          [] \<Rightarrow> (None, 1)
        | b2 # bs2 \<Rightarrow>
            if \<not> is_continuation b2 \<or> (b = 224 \<and> b2 < 160) \<or> (b = 237 \<and> 160 \<le> b2)
            then (None, 1)
            else
              (case bs2 of
                 [] \<Rightarrow> (None, 2)
               | b3 # _ \<Rightarrow>
                   if is_continuation b3
                   then (Some ((b - 224) * 4096 + (b2 - 128) * 64 + (b3 - 128)), 3)
                   else (None, 2)))
     else if b < 245 then
       (case bs of
          [] \<Rightarrow> (None, 1)
        | b2 # bs2 \<Rightarrow>
            if \<not> is_continuation b2 \<or> (b = 240 \<and> b2 < 144) \<or> (b = 244 \<and> 144 \<le> b2)
            then (None, 1)
            else
              (case bs2 of
                 [] \<Rightarrow> (None, 2)
               | b3 # bs3 \<Rightarrow>
                   if \<not> is_continuation b3 then (None, 2)
                   else
                     (case bs3 of
                        [] \<Rightarrow> (None, 3)
                      | b4 # _ \<Rightarrow>
                          if is_continuation b4
                          then (Some ((b - 240) * 262144 + (b2 - 128) * 4096
                                      + (b3 - 128) * 64 + (b4 - 128)), 4)
                          else (None, 3))))
     else (None, 1))"

lemma utf8_first_progress:
  "bs \<noteq> [] \<Longrightarrow> utf8_first bs = (r, n) \<Longrightarrow> length (drop n bs) < length bs"
  by (cases bs) (auto split: list.splits if_splits)

function utf8_codepoints :: "nat list \<Rightarrow> pystr" where
  "utf8_codepoints bs =
    (if bs = [] then []
     else
       (case utf8_first bs of
          (Some c, n) \<Rightarrow> c # utf8_codepoints (drop n bs)
        | (None, n) \<Rightarrow> utf8_codepoints (drop n bs)))"
  by pat_completeness auto
termination
  by (relation "measure length") (auto dest: utf8_first_progress [OF _ sym])

declare utf8_codepoints.simps [simp del]

definition decode_utf8_ignore :: "bytes \<Rightarrow> pystr" where
  "decode_utf8_ignore bs = utf8_codepoints (map of_char bs)"

text \<open>
  The byte values that are valid UTF-8 from the first to the last, which is what
  decoding with \<open>errors="strict"\<close> accepts.
\<close>

function utf8_well_formed :: "nat list \<Rightarrow> bool" where
  "utf8_well_formed bs =
    (if bs = [] then True
     else
       (case utf8_first bs of
          (Some c, n) \<Rightarrow> utf8_well_formed (drop n bs)
        | (None, n) \<Rightarrow> False))"
  by pat_completeness auto
termination
  by (relation "measure length") (auto dest: utf8_first_progress [OF _ sym])

declare utf8_well_formed.simps [simp del]

subsection \<open>\<open>str.strip()\<close>, \<open>str.split(sep, 1)\<close> and \<open>int(str)\<close>\<close>

text \<open>
  \<open>str.isspace\<close> on one code point: the characters \<open>strip()\<close> removes from both ends.
\<close>

definition is_space :: "codepoint \<Rightarrow> bool" where
  "is_space c \<longleftrightarrow>
     (9 \<le> c \<and> c \<le> 13) \<or> (28 \<le> c \<and> c \<le> 32) \<or> c = 133 \<or> c = 160 \<or> c = 5760
     \<or> (8192 \<le> c \<and> c \<le> 8202) \<or> c = 8232 \<or> c = 8233 \<or> c = 8239 \<or> c = 8287
     \<or> c = 12288"

definition strip :: "pystr \<Rightarrow> pystr" where
  "strip s = rev (dropWhile is_space (rev (dropWhile is_space s)))"

text \<open>
  \<open>s.split(sep, 1)\<close> where \<open>sep in s\<close> holds: the text before the first separator and
  the text after it. Both call sites of the source are guarded by the \<open>in\<close> test, so the
  unpacking into two names cannot fail.
\<close>

definition split1 :: "codepoint \<Rightarrow> pystr \<Rightarrow> pystr \<times> pystr" where
  "split1 sep s = (takeWhile (\<lambda>c. c \<noteq> sep) s, drop 1 (dropWhile (\<lambda>c. c \<noteq> sep) s))"

text \<open>
  The code points of Unicode's decimal digit zeros (general category Nd, Unicode 15.0);
  each is followed by the digits one to nine of its script. \<open>int\<close> accepts all of them.
\<close>

definition decimal_zeros :: "codepoint list" where
  "decimal_zeros =
    [0x30, 0x660, 0x6F0, 0x7C0, 0x966, 0x9E6, 0xA66, 0xAE6, 0xB66, 0xBE6, 0xC66, 0xCE6,
     0xD66, 0xDE6, 0xE50, 0xED0, 0xF20, 0x1040, 0x1090, 0x17E0, 0x1810, 0x1946, 0x19D0,
     0x1A80, 0x1A90, 0x1B50, 0x1BB0, 0x1C40, 0x1C50, 0xA620, 0xA8D0, 0xA900, 0xA9D0,
     0xA9F0, 0xAA50, 0xABF0, 0xFF10, 0x104A0, 0x10D30, 0x11066, 0x110F0, 0x11136,
     0x111D0, 0x112F0, 0x11450, 0x114D0, 0x11650, 0x116C0, 0x11730, 0x118E0, 0x11950,
     0x11C50, 0x11D50, 0x11DA0, 0x11F50, 0x16A60, 0x16AC0, 0x16B50, 0x1D7CE, 0x1D7D8,
     0x1D7E2, 0x1D7EC, 0x1D7F6, 0x1E140, 0x1E2F0, 0x1E4F0, 0x1E950, 0x1FBF0]"

definition to_decimal :: "codepoint \<Rightarrow> nat option" where
  "to_decimal c =
     (case find (\<lambda>z. z \<le> c \<and> c < z + 10) decimal_zeros of
        None \<Rightarrow> None
      | Some z \<Rightarrow> Some (c - z))"

text \<open>
  \<open>int(s)\<close> first rewrites \<open>s\<close> to ASCII: white space becomes a blank, a decimal digit
  of any script its ASCII digit, any other character beyond ASCII a question mark
  (which no integer literal contains, no more than the character 127).
\<close>

definition to_ascii :: "codepoint \<Rightarrow> codepoint" where
  "to_ascii c =
     (if c < 127 then c
      else if is_space c then 32
      else (case to_decimal c of None \<Rightarrow> 63 | Some d \<Rightarrow> 48 + d))"

definition is_c_space :: "codepoint \<Rightarrow> bool" where
  "is_c_space c \<longleftrightarrow> (9 \<le> c \<and> c \<le> 13) \<or> c = 32"

definition is_digit :: "codepoint \<Rightarrow> bool" where
  "is_digit c \<longleftrightarrow> 48 \<le> c \<and> c \<le> 57"

definition UNDERSCORE :: codepoint where
  "UNDERSCORE = 95"

fun double_underscore :: "pystr \<Rightarrow> bool" where
  "double_underscore (a # b # cs) \<longleftrightarrow>
     (a = UNDERSCORE \<and> b = UNDERSCORE) \<or> double_underscore (b # cs)"
| "double_underscore _ \<longleftrightarrow> False"

definition digits_value :: "pystr \<Rightarrow> nat" where
  "digits_value ds = foldl (\<lambda>acc c. 10 * acc + (c - 48)) 0 ds"

text \<open>
  The default of \<open>sys.set_int_max_str_digits\<close>: a literal with more digits raises
  \<open>ValueError\<close>.
\<close>

definition int_max_str_digits :: nat where
  "int_max_str_digits = 4300"

text \<open>
  \<open>int(s)\<close> in base ten; \<open>None\<close> is \<open>ValueError\<close>. The literal is optional white space,
  an optional sign, digits that single underscores may separate, and optional white
  space.
\<close>

definition py_int :: "pystr \<Rightarrow> int option" where
  "py_int s =
     (let t = dropWhile is_c_space (map to_ascii s);
          negative = (t \<noteq> [] \<and> hd t = 45);
          t1 = (if t \<noteq> [] \<and> (hd t = 43 \<or> hd t = 45) then tl t else t);
          body = takeWhile (\<lambda>c. is_digit c \<or> c = UNDERSCORE) t1;
          rest = dropWhile (\<lambda>c. is_digit c \<or> c = UNDERSCORE) t1;
          ds = filter is_digit body
      in if body = [] \<or> hd body = UNDERSCORE \<or> last body = UNDERSCORE
            \<or> double_underscore body \<or> int_max_str_digits < length ds
            \<or> dropWhile is_c_space rest \<noteq> []
         then None
         else Some (if negative then - int (digits_value ds) else int (digits_value ds)))"

subsection \<open>Formatting integers\<close>

fun decimal :: "nat \<Rightarrow> pystr" where
  "decimal n = (if n < 10 then [48 + n] else decimal (n div 10) @ [48 + n mod 10])"

declare decimal.simps [simp del]

text \<open>\<open>str(i)\<close>, as in \<open>f"{i_distance}"\<close>.\<close>

definition py_str_int :: "int \<Rightarrow> pystr" where
  "py_str_int i = (if i < 0 then 45 # decimal (nat (- i)) else decimal (nat i))"

text \<open>\<open>format(i, "03d")\<close>: zeros between the sign and the digits up to a width of three.\<close>

definition format_03d :: "int \<Rightarrow> pystr" where
  "format_03d i =
     (let sign = (if i < 0 then [45] else []);
          ds = decimal (nat \<bar>i\<bar>)
      in sign @ replicate (3 - length sign - length ds) 48 @ ds)"

section \<open>Numbers\<close>

subsection \<open>Floats\<close>

text \<open>
  A Python float is an IEEE 754 binary64 value: a real number \<open>m * 2 ^ k\<close> with an
  integer \<open>m\<close> of at most 53 bits and an exponent \<open>k\<close> from \<open>- 1074\<close> to 971, an infinity,
  or a NaN. The two zeros are one value here: nothing in the source looks at the sign of
  a zero. Every arithmetic operation returns the exact result rounded to the nearest
  such value, a tie going to the even \<open>m\<close>.
\<close>

datatype pyfloat = Finite real | PInf | NInf | NaN

definition pow2 :: "int \<Rightarrow> real" where
  "pow2 k = 2 powr real_of_int k"

text \<open>
  The exponent \<open>k\<close> of the floats next to \<open>x\<close>: 52 below the position of the leading bit
  of \<open>x\<close>, and \<open>- 1074\<close> for the subnormal numbers. \<open>quantum x\<close> is the gap between them.
\<close>

definition exponent :: "real \<Rightarrow> int" where
  "exponent x = (if x = 0 then - 1074 else max (\<lfloor>log 2 \<bar>x\<bar>\<rfloor> - 52) (- 1074))"

definition quantum :: "real \<Rightarrow> real" where
  "quantum x = pow2 (exponent x)"

definition round_half_even :: "real \<Rightarrow> int" where
  "round_half_even x =
     (let f = \<lfloor>x\<rfloor>; d = x - real_of_int f
      in if d < 1 / 2 then f else if 1 / 2 < d then f + 1 else if even f then f else f + 1)"

text \<open>The real number \<open>x\<close> rounded to 53 bits, the exponent not bounded above.\<close>

definition round_real :: "real \<Rightarrow> real" where
  "round_real x = real_of_int (round_half_even (x / quantum x)) * quantum x"

text \<open>The largest finite float, \<open>sys.float_info.max\<close>.\<close>

definition MAX_FLOAT :: real where
  "MAX_FLOAT = (2 ^ 53 - 1) * 2 ^ 971"

text \<open>A result beyond the largest float is an infinity.\<close>

definition round64 :: "real \<Rightarrow> pyfloat" where
  "round64 x =
     (let r = round_real x
      in if MAX_FLOAT < r then PInf else if r < - MAX_FLOAT then NInf else Finite r)"

text \<open>The real numbers that \<open>round_real\<close> leaves alone.\<close>

definition representable :: "real \<Rightarrow> bool" where
  "representable a \<longleftrightarrow> (\<exists>m k. a = real_of_int m * pow2 k \<and> \<bar>m\<bar> < 2 ^ 53 \<and> - 1074 \<le> k)"

fun fneg :: "pyfloat \<Rightarrow> pyfloat" where
  "fneg (Finite a) = Finite (- a)"
| "fneg PInf = NInf"
| "fneg NInf = PInf"
| "fneg NaN = NaN"

text \<open>\<open>a + b\<close>, \<open>a - b\<close> and \<open>a * b\<close> on floats; none of them raises.\<close>

fun fadd :: "pyfloat \<Rightarrow> pyfloat \<Rightarrow> pyfloat" where
  "fadd (Finite a) (Finite b) = round64 (a + b)"
| "fadd NaN _ = NaN"
| "fadd _ NaN = NaN"
| "fadd PInf NInf = NaN"
| "fadd NInf PInf = NaN"
| "fadd PInf _ = PInf"
| "fadd NInf _ = NInf"
| "fadd (Finite a) b = b"

definition fsub :: "pyfloat \<Rightarrow> pyfloat \<Rightarrow> pyfloat" where
  "fsub a b = fadd a (fneg b)"

fun fsign :: "pyfloat \<Rightarrow> real" where
  "fsign (Finite a) = sgn a"
| "fsign PInf = 1"
| "fsign NInf = - 1"
| "fsign NaN = 0"

fun fmul :: "pyfloat \<Rightarrow> pyfloat \<Rightarrow> pyfloat" where
  "fmul (Finite a) (Finite b) = round64 (a * b)"
| "fmul a b =
     (if a = NaN \<or> b = NaN \<or> fsign a * fsign b = 0 then NaN
      else if 0 < fsign a * fsign b then PInf else NInf)"

subsection \<open>Integers and floats together\<close>

datatype py_error = OverflowError | ValueError

text \<open>A computation that returns a value or raises: the next step runs on a value only.\<close>

definition then_do :: "py_error + 'a \<Rightarrow> ('a \<Rightarrow> py_error + 'b) \<Rightarrow> py_error + 'b" where
  "then_do m f = (case m of Inl e \<Rightarrow> Inl e | Inr v \<Rightarrow> f v)"

text \<open>A number of the source is an \<open>int\<close> or a \<open>float\<close>.\<close>

datatype pynum = Py_int int | Py_float pyfloat

text \<open>
  The float of a number, as arithmetic with a float and the \<open>math\<close> functions take it:
  an \<open>int\<close> is rounded, and one too large for a float raises \<open>OverflowError\<close>.
\<close>

definition as_float :: "pynum \<Rightarrow> py_error + pyfloat" where
  "as_float n =
     (case n of
        Py_float f \<Rightarrow> Inr f
      | Py_int i \<Rightarrow>
          (case round64 (real_of_int i) of
             Finite r \<Rightarrow> Inr (Finite r)
           | PInf \<Rightarrow> Inl OverflowError
           | NInf \<Rightarrow> Inl OverflowError
           | NaN \<Rightarrow> Inl OverflowError))"

text \<open>
  \<open>a + b\<close>, \<open>a - b\<close>, \<open>a * b\<close> on numbers: exact on two \<open>int\<close>s, otherwise on the floats
  of the two.
\<close>

definition num_op ::
  "(int \<Rightarrow> int \<Rightarrow> int) \<Rightarrow> (pyfloat \<Rightarrow> pyfloat \<Rightarrow> pyfloat) \<Rightarrow> pynum \<Rightarrow> pynum \<Rightarrow> py_error + pynum"
where
  "num_op int_op float_op a b =
     (case (a, b) of
        (Py_int i, Py_int j) \<Rightarrow> Inr (Py_int (int_op i j))
      | _ \<Rightarrow>
          then_do (as_float a) (\<lambda>x.
          then_do (as_float b) (\<lambda>y. Inr (Py_float (float_op x y)))))"

definition num_add :: "pynum \<Rightarrow> pynum \<Rightarrow> py_error + pynum" where
  "num_add = num_op (\<lambda>i j. i + j) fadd"

definition num_sub :: "pynum \<Rightarrow> pynum \<Rightarrow> py_error + pynum" where
  "num_sub = num_op (\<lambda>i j. i - j) fsub"

definition num_mul :: "pynum \<Rightarrow> pynum \<Rightarrow> py_error + pynum" where
  "num_mul = num_op (\<lambda>i j. i * j) fmul"

text \<open>The fraction of a real number cut off, towards zero.\<close>

definition py_trunc :: "real \<Rightarrow> int" where
  "py_trunc x = (if x < 0 then \<lceil>x\<rceil> else \<lfloor>x\<rfloor>)"

text \<open>
  \<open>int(x)\<close> on a number: an \<open>int\<close> is returned as it is, a float is truncated; an infinity
  raises \<open>OverflowError\<close> and a NaN \<open>ValueError\<close>.
\<close>

definition int_of_num :: "pynum \<Rightarrow> py_error + int" where
  "int_of_num n =
     (case n of
        Py_int i \<Rightarrow> Inr i
      | Py_float f \<Rightarrow>
          (case f of
             Finite r \<Rightarrow> Inr (py_trunc r)
           | PInf \<Rightarrow> Inl OverflowError
           | NInf \<Rightarrow> Inl OverflowError
           | NaN \<Rightarrow> Inl ValueError))"

subsection \<open>The \<open>math\<close> module\<close>

text \<open>
  \<open>math.radians(x)\<close> multiplies the float of \<open>x\<close> by the constant \<open>pi / 180.0\<close> of
  binary64, which is \<open>0x1.1df46a2529d39p-6\<close>.
\<close>

definition DEG_TO_RAD :: real where
  "DEG_TO_RAD = 5030569068109113 / 2 ^ 58"

definition math_radians :: "pynum \<Rightarrow> py_error + pyfloat" where
  "math_radians x = then_do (as_float x) (\<lambda>f. Inr (fmul f (Finite DEG_TO_RAD)))"

text \<open>
  \<open>math.cos\<close> and \<open>math.sin\<close> return what the C library of the platform computes, a float
  close to the cosine or sine and not specified further. The two functions are a
  parameter of everything that draws: for a finite float, the finite float returned.
\<close>

record libm =
  math_cos :: "real \<Rightarrow> real"
  math_sin :: "real \<Rightarrow> real"

text \<open>An infinite argument raises \<open>ValueError\<close> (math domain error); a NaN is returned.\<close>

definition py_cos :: "libm \<Rightarrow> pyfloat \<Rightarrow> py_error + pyfloat" where
  "py_cos m x =
     (case x of
        Finite t \<Rightarrow> Inr (Finite (math_cos m t))
      | PInf \<Rightarrow> Inl ValueError
      | NInf \<Rightarrow> Inl ValueError
      | NaN \<Rightarrow> Inr NaN)"

definition py_sin :: "libm \<Rightarrow> pyfloat \<Rightarrow> py_error + pyfloat" where
  "py_sin m x =
     (case x of
        Finite t \<Rightarrow> Inr (Finite (math_sin m t))
      | PInf \<Rightarrow> Inl ValueError
      | NInf \<Rightarrow> Inl ValueError
      | NaN \<Rightarrow> Inr NaN)"


text \<open>What the theorems below ask of a C library: cosines and sines within \<open>[-1, 1]\<close>.\<close>

definition unit_libm :: "libm \<Rightarrow> bool" where
  "unit_libm m \<longleftrightarrow> (\<forall>t. \<bar>math_cos m t\<bar> \<le> 1 \<and> \<bar>math_sin m t\<bar> \<le> 1)"

text \<open>The integers that have a float: the others raise \<open>OverflowError\<close> in \<open>as_float\<close>.\<close>

definition fits_float :: "int \<Rightarrow> bool" where
  "fits_float n \<longleftrightarrow> \<bar>n\<bar> < 2 ^ 1024 - 2 ^ 970"

section \<open>The module's globals and the serial decoder\<close>

text \<open>
  The module-level variables that \<open>read_serial\<close> and the drawing functions read and
  assign, with their initial values. \<open>i_angle\<close> and \<open>i_distance\<close> are the current sample.
\<close>

record globals =
  serial_buffer :: pystr
  angle_str :: pystr
  distance_str :: pystr
  no_object :: pystr
  pix_distance :: pynum
  i_angle :: int
  i_distance :: int

definition initial_globals :: globals where
  "initial_globals =
     \<lparr>serial_buffer = [], angle_str = [], distance_str = [], no_object = [],
      pix_distance = Py_float (Finite 0), i_angle = 0, i_distance = 0\<rparr>"

text \<open>
  What one message of the stream came to. The source announces nothing; the results
  are collected here so that the sequence of decoded samples can be stated.
\<close>

datatype parse_result = Ok int int | Malformed pystr

text \<open>
  The body of the loop of \<open>read_serial\<close> for one message \<open>msg\<close>. The two assignments
  stand in one \<open>try\<close> block: when the second \<open>int\<close> raises \<open>ValueError\<close>, the first
  assignment has already happened.
\<close>

definition parse_message :: "globals \<Rightarrow> pystr \<Rightarrow> parse_result \<times> globals" where
  "parse_message g msg =
     (if COMMA \<in> set msg then
        (let a = fst (split1 COMMA msg);
             d = snd (split1 COMMA msg);
             g1 = g\<lparr>angle_str := a, distance_str := d\<rparr>
         in case py_int (strip a) of
              None \<Rightarrow> (Malformed msg, g1)
            | Some ia \<Rightarrow>
                (case py_int (strip d) of
                   None \<Rightarrow> (Malformed msg, g1\<lparr>i_angle := ia\<rparr>)
                 | Some idist \<Rightarrow> (Ok ia idist, g1\<lparr>i_angle := ia, i_distance := idist\<rparr>)))
      else (Malformed msg, g))"

lemma serial_buffer_parse_message [simp]:
  "serial_buffer (snd (parse_message g msg)) = serial_buffer g"
  by (simp add: parse_message_def Let_def split: option.splits)

lemma length_split1_snd:
  assumes "sep \<in> set s"
  shows "length (snd (split1 sep s)) < length s"
proof -
  from assms have "0 < length (dropWhile (\<lambda>c. c \<noteq> sep) s)"
    by (simp add: dropWhile_eq_Nil_conv)
  moreover have "length (dropWhile (\<lambda>c. c \<noteq> sep) s) \<le> length s"
    by (rule length_dropWhile_le)
  ultimately have "length (dropWhile (\<lambda>c. c \<noteq> sep) s) - 1 < length s"
    by arith
  then show ?thesis by (simp add: split1_def)
qed

text \<open>\<open>while '.' in serial_buffer: ...\<close>\<close>

function process_messages :: "globals \<Rightarrow> parse_result list \<times> globals" where
  "process_messages g =
     (if DOT \<in> set (serial_buffer g) then
        (let msg = fst (split1 DOT (serial_buffer g));
             g1 = g\<lparr>serial_buffer := snd (split1 DOT (serial_buffer g))\<rparr>;
             step = parse_message g1 msg;
             later = process_messages (snd step)
         in (fst step # fst later, snd later))
      else ([], g))"
  by pat_completeness auto
termination
  by (relation "measure (\<lambda>g. length (serial_buffer g))") (auto simp: length_split1_snd)

declare process_messages.simps [simp del]

text \<open>
  The serial port as one call of \<open>read_serial\<close> finds it: no open port, a port whose
  \<open>in_waiting\<close> raises \<open>OSError\<close>, or a port with the given bytes waiting (possibly
  none), which \<open>ser.read\<close> returns.
\<close>

datatype transport = NoPort | InWaitingError | Waiting bytes

definition read_serial :: "globals \<Rightarrow> transport \<Rightarrow> parse_result list \<times> globals" where
  "read_serial g t =
     (case t of
        NoPort \<Rightarrow> ([], g)
      | InWaitingError \<Rightarrow> ([], g)
      | Waiting bs \<Rightarrow>
          if 0 < length bs then
            process_messages (g\<lparr>serial_buffer := serial_buffer g @ decode_utf8_ignore bs\<rparr>)
          else ([], g))"

text \<open>The main loop calls \<open>read_serial\<close> once per frame: the calls in sequence.\<close>

fun read_serial_calls :: "globals \<Rightarrow> transport list \<Rightarrow> parse_result list \<times> globals" where
  "read_serial_calls g [] = ([], g)"
| "read_serial_calls g (t # ts) =
     (let first = read_serial g t;
          later = read_serial_calls (snd first) ts
      in (fst first @ fst later, snd later))"


text \<open>
  The messages \<open>ms\<close> handled one after the other, each by the body of the loop: what
  processing a run of complete messages in order means.
\<close>

fun parse_in_order :: "globals \<Rightarrow> pystr list \<Rightarrow> parse_result list \<times> globals" where
  "parse_in_order g [] = ([], g)"
| "parse_in_order g (m # ms) =
     (let step = parse_message g m;
          later = parse_in_order (snd step) ms
      in (fst step # fst later, snd later))"

section \<open>Geometry and drawing\<close>

definition WIDTH :: int where
  "WIDTH = 480"

definition HEIGHT :: int where
  "HEIGHT = 320"

definition RADAR_CX :: int where
  "RADAR_CX = 240"

definition RADAR_CY :: int where
  "RADAR_CY = 210"

definition RADAR_RADIUS :: int where
  "RADAR_RADIUS = 200"

definition processing_to_screen :: "pynum \<Rightarrow> pynum \<Rightarrow> py_error + int \<times> int" where
  "processing_to_screen x_local y_local =
     then_do (num_add (Py_int RADAR_CX) x_local) (\<lambda>x_screen.
     then_do (num_sub (Py_int RADAR_CY) y_local) (\<lambda>y_screen.
     then_do (int_of_num x_screen) (\<lambda>pixel_x.
     then_do (int_of_num y_screen) (\<lambda>pixel_y. Inr (pixel_x, pixel_y)))))"

text \<open>
  The point at \<open>radius\<close> and the angle \<open>rad\<close> in the radar's own coordinates, as every
  drawing function computes it:
  \<open>x = radius * math.cos(rad); y = radius * math.sin(rad)\<close>.
\<close>

definition polar_point :: "libm \<Rightarrow> pyfloat \<Rightarrow> pynum \<Rightarrow> py_error + pynum \<times> pynum" where
  "polar_point m rad radius =
     then_do (py_cos m rad) (\<lambda>c.
     then_do (num_mul radius (Py_float c)) (\<lambda>x.
     then_do (py_sin m rad) (\<lambda>s.
     then_do (num_mul radius (Py_float s)) (\<lambda>y. Inr (x, y)))))"

text \<open>The same from an angle in degrees: \<open>rad = math.radians(deg)\<close> comes first.\<close>

definition polar_to_local :: "libm \<Rightarrow> pynum \<Rightarrow> pynum \<Rightarrow> py_error + pynum \<times> pynum" where
  "polar_to_local m deg radius =
     then_do (math_radians deg) (\<lambda>rad. polar_point m rad radius)"

text \<open>
  A sensor-space point placed on the screen: \<open>processing_to_screen(x, y)\<close> for the point
  at \<open>radius\<close> and \<open>deg\<close> degrees.
\<close>

definition project :: "libm \<Rightarrow> pynum \<Rightarrow> pynum \<Rightarrow> py_error + int \<times> int" where
  "project m deg radius =
     then_do (polar_to_local m deg radius) (\<lambda>p. processing_to_screen (fst p) (snd p))"

datatype colour = GREEN | GREEN_LINE | GREEN_TEXT | RED | BLACK

datatype font = Font_small | Font_medium | Font_large

text \<open>
  The calls a drawing function makes on the surface, in order: \<open>pygame.draw.line\<close>,
  \<open>pygame.draw.circle\<close>, \<open>pygame.draw.rect\<close>, and a rendered text blitted with its top
  left corner or with its centre at a position. What pygame does with a call is outside
  the model.
\<close>

datatype draw_call =
    Draw_line colour "int \<times> int" "int \<times> int" int
  | Draw_circle colour "int \<times> int" int
  | Draw_rect colour "int \<times> int \<times> int \<times> int"
  | Blit_text font pystr colour "int \<times> int"
  | Blit_text_centred font pystr colour "int \<times> int"

text \<open>
  A drawing function returns the calls it made, the exception that ended it if one
  did, and the globals.
\<close>

definition draw_object :: "libm \<Rightarrow> globals \<Rightarrow> draw_call list \<times> py_error option \<times> globals" where
  "draw_object m g =
     (if i_distance g < 40 then
        (let g1 = g\<lparr>pix_distance := Py_int (i_distance g * 5)\<rparr> in
         case
           then_do (math_radians (Py_int (i_angle g1))) (\<lambda>rad.
           then_do (polar_point m rad (pix_distance g1)) (\<lambda>p1.
           then_do (polar_point m rad (Py_int RADAR_RADIUS)) (\<lambda>p2.
           then_do (processing_to_screen (fst p1) (snd p1)) (\<lambda>start.
           then_do (processing_to_screen (fst p2) (snd p2)) (\<lambda>end_pos.
             Inr (p1, start, end_pos))))))
         of
           Inl e \<Rightarrow> ([], Some e, g1)
         | Inr (p1, start, end_pos) \<Rightarrow>
             (case processing_to_screen (fst p1) (snd p1) of
                Inl e \<Rightarrow> ([Draw_line RED start end_pos 3], Some e, g1)
              | Inr obj_pos \<Rightarrow>
                  ([Draw_line RED start end_pos 3, Draw_circle RED obj_pos 3], None, g1)))
      else ([], None, g))"

text \<open>The three texts of \<open>draw_text\<close> that depend on the sample, with their colours.\<close>

definition status_text :: "globals \<Rightarrow> pystr" where
  "status_text g = (if i_distance g > 40 then str ''Out'' else str ''In'')"

definition angle_text :: "globals \<Rightarrow> pystr" where
  "angle_text g = str ''A:'' @ format_03d (i_angle g) @ [176]"

definition distance_text :: "globals \<Rightarrow> pystr \<times> colour" where
  "distance_text g =
     (if i_distance g < 40 then (str ''D:'' @ py_str_int (i_distance g) @ str ''cm'', RED)
      else (str ''D:---'', GREEN_TEXT))"

definition scale_labels :: "draw_call list" where
  "scale_labels =
     concat (map (\<lambda>dist_cm.
        (let x_pos = RADAR_CX + dist_cm * 5 in
         if x_pos < WIDTH - 20 then
           [Blit_text Font_small (py_str_int dist_cm) GREEN_TEXT (x_pos - 5, RADAR_CY + 5),
            Draw_line GREEN (x_pos, RADAR_CY - 3) (x_pos, RADAR_CY + 3) 1]
         else [])) [10, 20, 30, 40])"

text \<open>
  \<open>for deg in [0, 45, 90, 135, 180]: ...\<close>: each label is blitted once its position is
  computed; an exception ends the loop.
\<close>

fun degree_labels :: "libm \<Rightarrow> int list \<Rightarrow> draw_call list \<times> py_error option" where
  "degree_labels m [] = ([], None)"
| "degree_labels m (deg # degs) =
     (case project m (Py_int deg) (Py_int (RADAR_RADIUS + 15)) of
        Inl e \<Rightarrow> ([], Some e)
      | Inr screen_pos \<Rightarrow>
          (let later = degree_labels m degs
           in (Blit_text_centred Font_small (py_str_int deg) GREEN_LINE screen_pos # fst later,
               snd later)))"

definition draw_text :: "libm \<Rightarrow> globals \<Rightarrow> draw_call list \<times> py_error option \<times> globals" where
  "draw_text m g =
     (let g1 = g\<lparr>no_object := status_text g\<rparr>;
          info_y = 240;
          labels = degree_labels m [0, 45, 90, 135, 180]
      in ([Draw_rect BLACK (0, 235, WIDTH, HEIGHT - 235),
           Draw_line GREEN (0, 235) (WIDTH, 235) 1]
          @ scale_labels
          @ [Blit_text Font_medium (str ''RADAR'') GREEN_LINE (5, 5),
             Blit_text Font_small (no_object g1)
               (if i_distance g1 > 40 then GREEN_TEXT else RED) (5, info_y),
             Blit_text Font_small (angle_text g1) GREEN_TEXT (5, info_y + 15),
             Blit_text Font_small (fst (distance_text g1)) (snd (distance_text g1))
               (5, info_y + 30)]
          @ fst labels,
          snd labels, g1))"

text \<open>A pixel of the \<open>WIDTH\<close> by \<open>HEIGHT\<close> display surface.\<close>

definition on_canvas :: "int \<times> int \<Rightarrow> bool" where
  "on_canvas p \<longleftrightarrow> 0 \<le> fst p \<and> fst p < WIDTH \<and> 0 \<le> snd p \<and> snd p < HEIGHT"

text \<open>
  What truncating \<open>r\<close> to the integer \<open>n\<close> means: \<open>n\<close> is no larger than \<open>r\<close> in
  magnitude and less than one away from it.
\<close>

definition is_truncation :: "real \<Rightarrow> int \<Rightarrow> bool" where
  "is_truncation r n \<longleftrightarrow> \<bar>real_of_int n\<bar> \<le> \<bar>r\<bar> \<and> \<bar>r - real_of_int n\<bar> < 1"






definition num_between :: "int \<Rightarrow> int \<Rightarrow> pynum \<Rightarrow> bool" where
  "num_between lo hi n =
     (case n of
        Py_int i \<Rightarrow> lo \<le> i \<and> i \<le> hi
      | Py_float f \<Rightarrow>
          (case f of
             Finite r \<Rightarrow> real_of_int lo \<le> r \<and> r \<le> real_of_int hi
           | PInf \<Rightarrow> False | NInf \<Rightarrow> False | NaN \<Rightarrow> False))"

definition sane_libm :: "libm \<Rightarrow> bool" where
  "sane_libm m \<longleftrightarrow>
     unit_libm m \<and> (\<forall>t. 0 \<le> t \<and> t \<le> 13 / 4 \<longrightarrow> - (1 / 2) \<le> math_sin m t)"

section \<open>Facts about the decoder\<close>

lemma split1_append:
  "sep \<in> set s \<Longrightarrow> split1 sep (s @ t) = (fst (split1 sep s), snd (split1 sep s) @ t)"
proof -
  assume a: "sep \<in> set s"
  then have "dropWhile (\<lambda>c. c \<noteq> sep) s \<noteq> []" by (simp add: dropWhile_eq_Nil_conv)
  then obtain x xs where d: "dropWhile (\<lambda>c. c \<noteq> sep) s = x # xs"
    by (cases "dropWhile (\<lambda>c. c \<noteq> sep) s") auto
  from a have "takeWhile (\<lambda>c. c \<noteq> sep) (s @ t) = takeWhile (\<lambda>c. c \<noteq> sep) s"
    by (intro takeWhile_append1 [of sep]) auto
  moreover from a have "dropWhile (\<lambda>c. c \<noteq> sep) (s @ t) = dropWhile (\<lambda>c. c \<noteq> sep) s @ t"
    by (intro dropWhile_append1 [of sep]) auto
  ultimately show ?thesis by (simp add: split1_def d)
qed

lemma parse_message_serial_buffer_update:
  "parse_message (g\<lparr>serial_buffer := b\<rparr>) msg =
     (fst (parse_message g msg), (snd (parse_message g msg))\<lparr>serial_buffer := b\<rparr>)"
  by (simp add: parse_message_def Let_def split: option.splits)

lemma process_messages_no_dot:
  "DOT \<notin> set (serial_buffer g) \<Longrightarrow> process_messages g = ([], g)"
  by (simp add: process_messages.simps)

lemma process_messages_append:
  "process_messages (g\<lparr>serial_buffer := serial_buffer g @ t\<rparr>) =
     (fst (process_messages g)
        @ fst (process_messages ((snd (process_messages g))
                \<lparr>serial_buffer := serial_buffer (snd (process_messages g)) @ t\<rparr>)),
      snd (process_messages ((snd (process_messages g))
                \<lparr>serial_buffer := serial_buffer (snd (process_messages g)) @ t\<rparr>)))"
proof (induction g rule: process_messages.induct)
  case (1 g)
  show ?case
  proof (cases "DOT \<in> set (serial_buffer g)")
    case False
    then show ?thesis by (simp add: process_messages_no_dot)
  next
    case True
    let ?msg = "fst (split1 DOT (serial_buffer g))"
    let ?rest = "snd (split1 DOT (serial_buffer g))"
    let ?g1 = "g\<lparr>serial_buffer := ?rest\<rparr>"
    let ?g2 = "snd (parse_message ?g1 ?msg)"
    have buf: "serial_buffer ?g2 = ?rest" by simp
    have ih: "process_messages (?g2\<lparr>serial_buffer := serial_buffer ?g2 @ t\<rparr>) =
     (fst (process_messages ?g2)
        @ fst (process_messages ((snd (process_messages ?g2))
                \<lparr>serial_buffer := serial_buffer (snd (process_messages ?g2)) @ t\<rparr>)),
      snd (process_messages ((snd (process_messages ?g2))
                \<lparr>serial_buffer := serial_buffer (snd (process_messages ?g2)) @ t\<rparr>)))"
      using "1.IH" [OF True refl refl refl] .
    have left: "process_messages (g\<lparr>serial_buffer := serial_buffer g @ t\<rparr>) =
       (fst (parse_message ?g1 ?msg)
          # fst (process_messages (?g2\<lparr>serial_buffer := ?rest @ t\<rparr>)),
        snd (process_messages (?g2\<lparr>serial_buffer := ?rest @ t\<rparr>)))"
      using True
      by (subst process_messages.simps)
         (simp add: split1_append Let_def parse_message_serial_buffer_update)
    have right: "process_messages g =
       (fst (parse_message ?g1 ?msg) # fst (process_messages ?g2), snd (process_messages ?g2))"
      using True by (subst process_messages.simps) (simp add: Let_def)
    show ?thesis
      unfolding left right using ih by (simp add: buf)
  qed
qed

lemma process_messages_consumes:
  "DOT \<notin> set (serial_buffer (snd (process_messages g)))"
proof (induction g rule: process_messages.induct)
  case (1 g)
  show ?case
  proof (cases "DOT \<in> set (serial_buffer g)")
    case False
    then show ?thesis by (simp add: process_messages_no_dot)
  next
    case True
    then show ?thesis
      using "1.IH" [OF True refl refl refl]
      by (subst process_messages.simps) (simp add: Let_def)
  qed
qed

lemma utf8_codepoints_ascii:
  "\<forall>b\<in>set bs. b < 128 \<Longrightarrow> utf8_codepoints bs = bs"
proof (induction bs)
  case Nil
  show ?case by (simp add: utf8_codepoints.simps)
next
  case (Cons b bs)
  then have "utf8_codepoints (b # bs) = b # utf8_codepoints bs"
    by (subst utf8_codepoints.simps) simp
  with Cons show ?case by simp
qed

lemma decode_utf8_ignore_ascii:
  "\<forall>b\<in>set bs. (of_char b :: nat) < 128 \<Longrightarrow> decode_utf8_ignore bs = map of_char bs"
  by (simp add: decode_utf8_ignore_def utf8_codepoints_ascii)

lemma read_serial_nonempty:
  "bs \<noteq> [] \<Longrightarrow> read_serial g (Waiting bs) =
     process_messages (g\<lparr>serial_buffer := serial_buffer g @ decode_utf8_ignore bs\<rparr>)"
  by (simp add: read_serial_def)

lemma read_serial_empty: "read_serial g (Waiting []) = ([], g)"
  by (simp add: read_serial_def)

lemma read_serial_consumes:
  "DOT \<notin> set (serial_buffer g) \<Longrightarrow> DOT \<notin> set (serial_buffer (snd (read_serial g t)))"
  by (cases t) (simp_all add: read_serial_def process_messages_consumes)

lemma read_serial_calls_consumes:
  "DOT \<notin> set (serial_buffer g) \<Longrightarrow> DOT \<notin> set (serial_buffer (snd (read_serial_calls g ts)))"
  by (induction ts arbitrary: g) (simp_all add: Let_def read_serial_consumes)

lemma read_serial_append:
  assumes "decode_utf8_ignore (c @ d) = decode_utf8_ignore c @ decode_utf8_ignore d"
  shows "read_serial g (Waiting (c @ d)) =
     (fst (read_serial g (Waiting c)) @ fst (read_serial (snd (read_serial g (Waiting c))) (Waiting d)),
      snd (read_serial (snd (read_serial g (Waiting c))) (Waiting d)))"
proof (cases "c = [] \<or> d = []")
  case True
  then show ?thesis by (auto simp: read_serial_empty)
next
  case False
  define g0 where "g0 = g\<lparr>serial_buffer := serial_buffer g @ decode_utf8_ignore c\<rparr>"
  have c: "read_serial g (Waiting c) = process_messages g0"
    using False by (simp add: read_serial_nonempty g0_def)
  have d: "read_serial (snd (process_messages g0)) (Waiting d) =
      process_messages ((snd (process_messages g0))
        \<lparr>serial_buffer := serial_buffer (snd (process_messages g0)) @ decode_utf8_ignore d\<rparr>)"
    using False by (simp add: read_serial_nonempty)
  have "read_serial g (Waiting (c @ d)) =
      process_messages (g0\<lparr>serial_buffer := serial_buffer g0 @ decode_utf8_ignore d\<rparr>)"
    using False assms by (simp add: read_serial_nonempty g0_def)
  also have "\<dots> = (fst (process_messages g0)
        @ fst (read_serial (snd (process_messages g0)) (Waiting d)),
      snd (read_serial (snd (process_messages g0)) (Waiting d)))"
    by (simp only: d process_messages_append [of g0])
  finally show ?thesis unfolding c .
qed

lemma read_serial_calls_concat:
  "\<forall>b\<in>set (concat chunks). (of_char b :: nat) < 128 \<Longrightarrow>
     read_serial_calls g (map Waiting chunks) = read_serial g (Waiting (concat chunks))"
proof (induction chunks arbitrary: g)
  case Nil
  show ?case by (simp add: read_serial_empty)
next
  case (Cons c cs)
  have "decode_utf8_ignore (c @ concat cs) = decode_utf8_ignore c @ decode_utf8_ignore (concat cs)"
    using Cons.prems by (simp add: decode_utf8_ignore_ascii)
  from read_serial_append [OF this] Cons.IH [of "snd (read_serial g (Waiting c))"] Cons.prems
  show ?case by (simp add: Let_def)
qed





lemma split1_at:
  "sep \<notin> set a \<Longrightarrow> split1 sep (a @ sep # d) = (a, d)"
  by (induction a) (simp_all add: split1_def)

lemma process_messages_step:
  assumes "DOT \<notin> set m"
  shows "process_messages (g\<lparr>serial_buffer := m @ DOT # rest\<rparr>) =
     (fst (parse_message g m) # fst (process_messages ((snd (parse_message g m))\<lparr>serial_buffer := rest\<rparr>)),
      snd (process_messages ((snd (parse_message g m))\<lparr>serial_buffer := rest\<rparr>)))"
  using assms
  by (subst process_messages.simps)
     (simp add: split1_at Let_def parse_message_serial_buffer_update)

lemma parse_in_order_serial_buffer_update:
  "parse_in_order (g\<lparr>serial_buffer := b\<rparr>) ms =
     (fst (parse_in_order g ms), (snd (parse_in_order g ms))\<lparr>serial_buffer := b\<rparr>)"
  by (induction ms arbitrary: g) (simp_all add: Let_def parse_message_serial_buffer_update)

lemma process_messages_terminated:
  assumes "\<forall>m\<in>set ms. DOT \<notin> set m" and "DOT \<notin> set tail"
  shows "process_messages (g\<lparr>serial_buffer := concat (map (\<lambda>m. m @ [DOT]) ms) @ tail\<rparr>) =
     (fst (parse_in_order g ms), (snd (parse_in_order g ms))\<lparr>serial_buffer := tail\<rparr>)"
  using assms
proof (induction ms arbitrary: g)
  case Nil
  then show ?case by (simp add: process_messages_no_dot)
next
  case (Cons m ms)
  from Cons.prems have m: "DOT \<notin> set m" and ms: "\<forall>m\<in>set ms. DOT \<notin> set m" by simp_all
  have "process_messages
          (g\<lparr>serial_buffer := m @ DOT # (concat (map (\<lambda>m. m @ [DOT]) ms) @ tail)\<rparr>) =
     (fst (parse_message g m) # fst (parse_in_order (snd (parse_message g m)) ms),
      (snd (parse_in_order (snd (parse_message g m)) ms))\<lparr>serial_buffer := tail\<rparr>)"
    by (simp add: process_messages_step [OF m] Cons.IH [OF ms Cons.prems(2)])
  then show ?case by (simp add: Let_def)
qed


lemma to_ascii_ascii: "c < 127 \<Longrightarrow> to_ascii c = c"
  by (simp add: to_ascii_def)

lemma parse_message_ok:
  assumes "COMMA \<notin> set a" "py_int (strip a) = Some x" "py_int (strip d) = Some y"
  shows "parse_message g (a @ COMMA # d) =
     (Ok x y, g\<lparr>angle_str := a, distance_str := d, i_angle := x, i_distance := y\<rparr>)"
  using assms by (simp add: parse_message_def split1_at Let_def)

lemma parse_message_bad_angle:
  assumes "COMMA \<notin> set a" "py_int (strip a) = None"
  shows "parse_message g (a @ COMMA # d) =
     (Malformed (a @ COMMA # d), g\<lparr>angle_str := a, distance_str := d\<rparr>)"
  using assms by (simp add: parse_message_def split1_at Let_def)

lemma parse_message_bad_distance:
  assumes "COMMA \<notin> set a" "py_int (strip a) = Some x" "py_int (strip d) = None"
  shows "parse_message g (a @ COMMA # d) =
     (Malformed (a @ COMMA # d), g\<lparr>angle_str := a, distance_str := d, i_angle := x\<rparr>)"
  using assms by (simp add: parse_message_def split1_at Let_def)

lemma parse_message_no_comma:
  "COMMA \<notin> set m \<Longrightarrow> parse_message g m = (Malformed m, g)"
  by (simp add: parse_message_def)

lemmas py_int_eval = py_int_def strip_def is_space_def Let_def to_ascii_ascii is_c_space_def
  is_digit_def UNDERSCORE_def int_max_str_digits_def digits_value_def

lemma serial_buffer_parse_in_order [simp]:
  "serial_buffer (snd (parse_in_order g ms)) = serial_buffer g"
  by (induction ms arbitrary: g) (simp_all add: Let_def)

lemma read_serial_messages:
  assumes "bs \<noteq> []"
    and "serial_buffer g @ decode_utf8_ignore bs = concat (map (\<lambda>m. m @ [DOT]) ms) @ tail"
    and "\<forall>m\<in>set ms. DOT \<notin> set m"
    and "DOT \<notin> set tail"
  shows "read_serial g (Waiting bs) =
     (fst (parse_in_order g ms), (snd (parse_in_order g ms))\<lparr>serial_buffer := tail\<rparr>)"
proof -
  have "read_serial g (Waiting bs) =
      process_messages (g\<lparr>serial_buffer := concat (map (\<lambda>m. m @ [DOT]) ms) @ tail\<rparr>)"
    using assms(1,2) by (simp add: read_serial_nonempty)
  also have "\<dots> =
      (fst (parse_in_order g ms), (snd (parse_in_order g ms))\<lparr>serial_buffer := tail\<rparr>)"
    using assms(3,4) by (rule process_messages_terminated)
  finally show ?thesis .
qed

subsection \<open>The decoder of UTF-8 keeps the ASCII bytes\<close>

lemma utf8_first_ascii:
  assumes "bs \<noteq> []" "utf8_first bs = (r, n)"
  shows "filter (\<lambda>b. b < 128) (take n bs) @ filter (\<lambda>b. b < 128) (drop n bs)
           = filter (\<lambda>b. b < 128) bs"
    and "filter (\<lambda>b. b < 128) (take n bs) = (case r of None \<Rightarrow> [] | Some c \<Rightarrow> filter (\<lambda>b. b < 128) [c])"
proof -
  show "filter (\<lambda>b. b < 128) (take n bs) @ filter (\<lambda>b. b < 128) (drop n bs)
      = filter (\<lambda>b. b < 128) bs"
    by (simp flip: filter_append)
  obtain b rest where bs: "bs = b # rest" using assms(1) by (cases bs) auto
  show "filter (\<lambda>b. b < 128) (take n bs) = (case r of None \<Rightarrow> [] | Some c \<Rightarrow> filter (\<lambda>b. b < 128) [c])"
    using assms(2) unfolding bs
    by (auto simp: is_continuation_def split: if_splits list.splits)
qed

lemma utf8_codepoints_keeps_ascii:
  "filter (\<lambda>c. c < 128) (utf8_codepoints bs) = filter (\<lambda>b. b < 128) bs"
proof (induction "length bs" arbitrary: bs rule: less_induct)
  case less
  show ?case
  proof (cases "bs = []")
    case True
    then show ?thesis by (simp add: utf8_codepoints.simps)
  next
    case False
    obtain r n where first: "utf8_first bs = (r, n)" by (cases "utf8_first bs") auto
    note ascii = utf8_first_ascii [OF False first]
    have ih: "filter (\<lambda>c. c < 128) (utf8_codepoints (drop n bs))
        = filter (\<lambda>b. b < 128) (drop n bs)"
      by (rule less) (rule utf8_first_progress [OF False first])
    show ?thesis
    proof (cases r)
      case None
      have "utf8_codepoints bs = utf8_codepoints (drop n bs)"
        using False first None by (subst utf8_codepoints.simps) simp
      then show ?thesis using ascii None ih by simp
    next
      case (Some c)
      have "utf8_codepoints bs = c # utf8_codepoints (drop n bs)"
        using False first Some by (subst utf8_codepoints.simps) simp
      then show ?thesis using ascii Some ih by (simp split: if_splits)
    qed
  qed
qed

subsection \<open>Particular messages\<close>


lemma parse_07_15:
  "parse_message g (str ''07,15'') =
     (Ok 7 15, g\<lparr>angle_str := str ''07'', distance_str := str ''15'', i_angle := 7, i_distance := 15\<rparr>)"
proof -
  have "py_int (strip (str ''07'')) = Some 7" "py_int (strip (str ''15'')) = Some 15"
    by (simp_all add: str_def py_int_eval)
  then have "parse_message g (str ''07'' @ COMMA # str ''15'') =
      (Ok 7 15, g\<lparr>angle_str := str ''07'', distance_str := str ''15'', i_angle := 7, i_distance := 15\<rparr>)"
    by (intro parse_message_ok) (simp_all add: str_def COMMA_def)
  then show ?thesis by (simp add: str_def COMMA_def)
qed

lemma to_ascii_e_acute: "to_ascii 233 = 63"
  by (simp add: to_ascii_def is_space_def to_decimal_def decimal_zeros_def)

lemma parse_010_005:
  "parse_message g (str ''010,005'') =
     (Ok 10 5, g\<lparr>angle_str := str ''010'', distance_str := str ''005'', i_angle := 10, i_distance := 5\<rparr>)"
proof -
  have "py_int (strip (str ''010'')) = Some 10" "py_int (strip (str ''005'')) = Some 5"
    by (simp_all add: str_def py_int_eval)
  then have "parse_message g (str ''010'' @ COMMA # str ''005'') =
      (Ok 10 5, g\<lparr>angle_str := str ''010'', distance_str := str ''005'', i_angle := 10, i_distance := 5\<rparr>)"
    by (intro parse_message_ok) (simp_all add: str_def COMMA_def)
  then show ?thesis by (simp add: str_def COMMA_def)
qed

lemma parse_020_999:
  "parse_message g (str ''020,999'') =
     (Ok 20 999, g\<lparr>angle_str := str ''020'', distance_str := str ''999'', i_angle := 20, i_distance := 999\<rparr>)"
proof -
  have "py_int (strip (str ''020'')) = Some 20" "py_int (strip (str ''999'')) = Some 999"
    by (simp_all add: str_def py_int_eval)
  then have "parse_message g (str ''020'' @ COMMA # str ''999'') =
      (Ok 20 999, g\<lparr>angle_str := str ''020'', distance_str := str ''999'', i_angle := 20, i_distance := 999\<rparr>)"
    by (intro parse_message_ok) (simp_all add: str_def COMMA_def)
  then show ?thesis by (simp add: str_def COMMA_def)
qed

lemma parse_10_5:
  "parse_message g (str ''10,5'') =
     (Ok 10 5, g\<lparr>angle_str := str ''10'', distance_str := str ''5'', i_angle := 10, i_distance := 5\<rparr>)"
proof -
  have "py_int (strip (str ''10'')) = Some 10" "py_int (strip (str ''5'')) = Some 5"
    by (simp_all add: str_def py_int_eval)
  then have "parse_message g (str ''10'' @ COMMA # str ''5'') =
      (Ok 10 5, g\<lparr>angle_str := str ''10'', distance_str := str ''5'', i_angle := 10, i_distance := 5\<rparr>)"
    by (intro parse_message_ok) (simp_all add: str_def COMMA_def)
  then show ?thesis by (simp add: str_def COMMA_def)
qed

section \<open>Facts about floats\<close>

lemma pow2_pos [simp]: "0 < pow2 k"
  by (simp add: pow2_def)

lemma pow2_add: "pow2 (a + b) = pow2 a * pow2 b"
  by (simp add: pow2_def powr_add)

lemma pow2_mono: "a \<le> b \<Longrightarrow> pow2 a \<le> pow2 b"
  by (simp add: pow2_def)

lemma pow2_nat: "0 \<le> k \<Longrightarrow> pow2 k = 2 ^ nat k"
proof -
  assume "0 \<le> k"
  then have "real_of_int k = real (nat k)" by simp
  then show ?thesis unfolding pow2_def by (simp only: powr_realpow [of 2 "nat k"] zero_less_numeral)
qed

lemma pow2_numeral [simp]: "pow2 (numeral n) = 2 ^ numeral n"
  by (simp add: pow2_nat)

lemma pow2_0 [simp]: "pow2 0 = 1"
  by (simp add: pow2_def)

lemma pow2_neg_numeral [simp]: "pow2 (- numeral n) = 1 / 2 ^ numeral n"
  by (simp add: pow2_def powr_neg_numeral)

lemma exponent_ge: "- 1074 \<le> exponent x"
  by (simp add: exponent_def)

lemma exponent_uminus [simp]: "exponent (- x) = exponent x"
  by (simp add: exponent_def)

lemma exponent_lower:
  assumes "- 1074 < exponent x"
  shows "x \<noteq> 0" and "pow2 (exponent x + 52) \<le> \<bar>x\<bar>"
proof -
  show nz: "x \<noteq> 0" using assms by (auto simp: exponent_def)
  then have e: "exponent x + 52 = \<lfloor>log 2 \<bar>x\<bar>\<rfloor>"
    using assms by (simp add: exponent_def max_def split: if_splits)
  have "2 powr real_of_int \<lfloor>log 2 \<bar>x\<bar>\<rfloor> \<le> \<bar>x\<bar>"
    using floor_log_eq_powr_iff [of "\<bar>x\<bar>" 2 "\<lfloor>log 2 \<bar>x\<bar>\<rfloor>"] nz by simp
  then show "pow2 (exponent x + 52) \<le> \<bar>x\<bar>" by (simp add: e pow2_def)
qed

lemma exponent_upper: "\<bar>x\<bar> < pow2 (exponent x + 53)"
proof (cases "x = 0")
  case True
  then show ?thesis by simp
next
  case False
  have "\<bar>x\<bar> < 2 powr real_of_int (\<lfloor>log 2 \<bar>x\<bar>\<rfloor> + 1)"
    using floor_log_eq_powr_iff [of "\<bar>x\<bar>" 2 "\<lfloor>log 2 \<bar>x\<bar>\<rfloor>"] False by simp
  also have "\<dots> = pow2 (\<lfloor>log 2 \<bar>x\<bar>\<rfloor> + 1)" by (simp add: pow2_def)
  also have "\<dots> \<le> pow2 (exponent x + 53)"
    using False by (intro pow2_mono) (simp add: exponent_def)
  finally show ?thesis .
qed

lemma exponent_eqI:
  assumes "pow2 (k + 52) \<le> \<bar>x\<bar>" "\<bar>x\<bar> < pow2 (k + 53)" "- 1074 \<le> k"
  shows "exponent x = k"
proof -
  have pos: "0 < \<bar>x\<bar>" using assms(1) pow2_pos [of "k + 52"] by linarith
  have "\<lfloor>log 2 \<bar>x\<bar>\<rfloor> = k + 52"
    using floor_log_eq_powr_iff [of "\<bar>x\<bar>" 2 "k + 52"] pos assms(1,2)
    by (simp add: pow2_def add.commute)
  then show ?thesis using pos assms(3) by (simp add: exponent_def)
qed

lemma exponent_mono:
  assumes "\<bar>x\<bar> \<le> \<bar>y\<bar>"
  shows "exponent x \<le> exponent y"
proof (cases "- 1074 < exponent x")
  case False
  then show ?thesis using exponent_ge [of x] exponent_ge [of y] by linarith
next
  case True
  have "pow2 (exponent x + 52) \<le> \<bar>y\<bar>" using exponent_lower(2) [OF True] assms by linarith
  also have "\<bar>y\<bar> < pow2 (exponent y + 53)" by (rule exponent_upper)
  finally have "pow2 (exponent x + 52) < pow2 (exponent y + 53)" .
  then have "exponent x + 52 < exponent y + 53"
    by (simp add: pow2_def)
  then show ?thesis by simp
qed

lemma round_half_even_choice:
  "round_half_even x = \<lfloor>x\<rfloor> \<or> round_half_even x = \<lfloor>x\<rfloor> + 1"
  by (simp add: round_half_even_def Let_def)

lemma round_half_even_of_int [simp]: "round_half_even (real_of_int n) = n"
  by (simp add: round_half_even_def)

lemma floor_le_round_half_even: "\<lfloor>x\<rfloor> \<le> round_half_even x"
  using round_half_even_choice [of x] by auto

lemma round_half_even_le_ceiling: "round_half_even x \<le> \<lceil>x\<rceil>"
proof (cases "x = real_of_int \<lfloor>x\<rfloor>")
  case True
  then have "round_half_even x = \<lfloor>x\<rfloor>"
    by (metis round_half_even_of_int)
  then show ?thesis by (simp add: floor_le_ceiling)
next
  case False
  then have "\<lceil>x\<rceil> = \<lfloor>x\<rfloor> + 1" by (simp add: ceiling_altdef)
  then show ?thesis using round_half_even_choice [of x] by auto
qed

lemma le_round_half_even:
  assumes "real_of_int n \<le> x"
  shows "n \<le> round_half_even x"
proof -
  have "n \<le> \<lfloor>x\<rfloor>" using assms by (simp add: le_floor_iff)
  then show ?thesis using floor_le_round_half_even [of x] by linarith
qed

lemma round_half_even_le:
  assumes "x \<le> real_of_int n"
  shows "round_half_even x \<le> n"
proof -
  have "\<lceil>x\<rceil> \<le> n" using assms by (simp add: ceiling_le_iff)
  then show ?thesis using round_half_even_le_ceiling [of x] by linarith
qed

lemma round_half_even_mono:
  assumes "x \<le> y"
  shows "round_half_even x \<le> round_half_even y"
proof (cases "\<lfloor>x\<rfloor> < \<lfloor>y\<rfloor>")
  case True
  then show ?thesis
    using round_half_even_choice [of x] floor_le_round_half_even [of y] by linarith
next
  case False
  then have eq: "\<lfloor>y\<rfloor> = \<lfloor>x\<rfloor>" using floor_mono [OF assms] by linarith
  show ?thesis
    using assms unfolding round_half_even_def Let_def eq by (auto split: if_splits)
qed

lemma round_half_even_uminus: "round_half_even (- x) = - round_half_even x"
proof (cases "x = real_of_int \<lfloor>x\<rfloor>")
  case True
  then obtain n where "x = real_of_int n" by blast
  then show ?thesis by (simp flip: of_int_minus)
next
  case False
  then have c: "\<lceil>x\<rceil> = \<lfloor>x\<rfloor> + 1" by (simp add: ceiling_altdef)
  have f: "\<lfloor>- x\<rfloor> = - \<lfloor>x\<rfloor> - 1" using c by (simp add: floor_minus)
  have lt: "real_of_int \<lfloor>x\<rfloor> < x" using False by (metis floor_less_iff less_le of_int_floor_le)
  show ?thesis
    unfolding round_half_even_def Let_def f using lt by (auto split: if_splits)
qed

lemma quantum_pos [simp]: "0 < quantum x"
  by (simp add: quantum_def)

lemma quantum_uminus [simp]: "quantum (- x) = quantum x"
  by (simp add: quantum_def)

lemma round_real_uminus: "round_real (- x) = - round_real x"
  by (simp add: round_real_def round_half_even_uminus)

lemma representable_uminus: "representable a \<Longrightarrow> representable (- a)"
proof -
  assume "representable a"
  then obtain m k where "a = real_of_int m * pow2 k" "\<bar>m\<bar> < 2 ^ 53" "- 1074 \<le> k"
    unfolding representable_def by blast
  then have "- a = real_of_int (- m) * pow2 k \<and> \<bar>- m\<bar> < 2 ^ 53 \<and> - 1074 \<le> k" by simp
  then show ?thesis unfolding representable_def by blast
qed

lemma representable_of_int: "\<bar>n\<bar> < 2 ^ 53 \<Longrightarrow> representable (real_of_int n)"
  unfolding representable_def by (rule exI [of _ n], rule exI [of _ 0]) simp

lemma le_round_real:
  assumes "representable a" and "a \<le> x"
  shows "a \<le> round_real x"
proof -
  obtain m k where a: "a = real_of_int m * pow2 k" and m: "\<bar>m\<bar> < 2 ^ 53" and k: "- 1074 \<le> k"
    using assms(1) unfolding representable_def by blast
  define e where "e = exponent x"
  define q where "q = pow2 e"
  have q: "0 < q" by (simp add: q_def)
  have rr: "round_real x = real_of_int (round_half_even (x / q)) * q"
    by (simp add: round_real_def quantum_def q_def e_def)
  show ?thesis
  proof (cases "e \<le> k")
    case True
    have "pow2 k = pow2 (k - e) * q" unfolding q_def by (simp flip: pow2_add)
    also have "pow2 (k - e) = 2 ^ nat (k - e)" using True by (simp add: pow2_nat)
    finally have "a = real_of_int (m * 2 ^ nat (k - e)) * q" by (simp add: a)
    moreover define N where "N = m * 2 ^ nat (k - e)"
    ultimately have aN: "a = real_of_int N * q" by simp
    then have "real_of_int N \<le> x / q" using assms(2) q by (simp add: pos_le_divide_eq)
    then have "N \<le> round_half_even (x / q)" by (rule le_round_half_even)
    then have "real_of_int N * q \<le> real_of_int (round_half_even (x / q)) * q"
      using q by simp
    then show ?thesis by (simp add: aN rr)
  next
    case False
    then have lt: "- 1074 < exponent x" using k by (simp add: e_def)
    have low: "pow2 (e + 52) \<le> \<bar>x\<bar>" using exponent_lower(2) [OF lt] by (simp add: e_def)
    have "\<bar>a\<bar> = real_of_int \<bar>m\<bar> * pow2 k" by (simp add: a abs_mult abs_of_pos)
    also have "\<dots> < 2 ^ 53 * pow2 k"
    proof -
      from m have "real_of_int \<bar>m\<bar> < real_of_int (2 ^ 53)"
        by (simp only: of_int_less_iff)
      then show ?thesis by simp
    qed
    also have "\<dots> = pow2 (k + 53)" by (simp add: pow2_add)
    also have "\<dots> \<le> pow2 (e + 52)" using False by (intro pow2_mono) simp
    finally have small: "\<bar>a\<bar> < pow2 (e + 52)" .
    have "0 < x"
    proof (rule ccontr)
      assume "\<not> 0 < x"
      then have "\<bar>x\<bar> \<le> \<bar>a\<bar>" using assms(2) by simp
      with small low show False by linarith
    qed
    then have "real_of_int (2 ^ 52) * q \<le> x" using low by (simp add: q_def pow2_add mult.commute)
    then have "real_of_int (2 ^ 52) \<le> x / q" using q by (simp add: pos_le_divide_eq)
    then have "2 ^ 52 \<le> round_half_even (x / q)" by (rule le_round_half_even)
    then have "real_of_int (2 ^ 52) * q \<le> round_real x" using q by (simp add: rr)
    moreover have "real_of_int (2 ^ 52) * q = pow2 (e + 52)"
      by (simp add: q_def pow2_add mult.commute)
    ultimately show ?thesis using small by linarith
  qed
qed

lemma round_real_le:
  assumes "representable a" and "x \<le> a"
  shows "round_real x \<le> a"
proof -
  have "- a \<le> round_real (- x)"
    using representable_uminus [OF assms(1)] assms(2) by (intro le_round_real) simp_all
  then show ?thesis by (simp add: round_real_uminus)
qed

lemma round_real_representable: "representable a \<Longrightarrow> round_real a = a"
  using le_round_real [of a a] round_real_le [of a a] by simp

lemma round_real_of_int: "\<bar>n\<bar> < 2 ^ 53 \<Longrightarrow> round_real (real_of_int n) = real_of_int n"
  by (rule round_real_representable) (rule representable_of_int)

lemma representable_pow2: "- 1074 \<le> k \<Longrightarrow> representable (pow2 k)"
  unfolding representable_def by (rule exI [of _ 1], rule exI [of _ k]) simp

lemma round_real_mono:
  assumes "x \<le> y"
  shows "round_real x \<le> round_real y"
proof (cases "exponent x = exponent y")
  case True
  then have q: "quantum y = quantum x" by (simp add: quantum_def)
  have "x / quantum x \<le> y / quantum x"
    using assms by (intro divide_right_mono) (simp_all add: less_imp_le)
  then have "round_half_even (x / quantum x) \<le> round_half_even (y / quantum x)"
    by (rule round_half_even_mono)
  then show ?thesis by (simp add: round_real_def q)
next
  case False
  have between: "\<exists>p. representable p \<and> u \<le> p \<and> p \<le> v"
    if "0 \<le> u" "u \<le> v" "exponent u \<noteq> exponent v" for u v
  proof -
    have "exponent u \<le> exponent v" using that by (intro exponent_mono) simp
    then have lt: "exponent u < exponent v" using that(3) by simp
    then have big: "- 1074 < exponent v" using exponent_ge [of u] by linarith
    have "u < pow2 (exponent u + 53)" using exponent_upper [of u] that(1) by simp
    also have "\<dots> \<le> pow2 (exponent v + 52)" using lt by (intro pow2_mono) simp
    finally have "u \<le> pow2 (exponent v + 52)" by simp
    moreover have "pow2 (exponent v + 52) \<le> v"
      using exponent_lower(2) [OF big] that(1,2) by simp
    moreover have "representable (pow2 (exponent v + 52))"
      using big by (intro representable_pow2) simp
    ultimately show ?thesis by blast
  qed
  have "\<exists>p. representable p \<and> x \<le> p \<and> p \<le> y"
  proof (cases "0 \<le> x")
    case True
    then show ?thesis using between [of x y] assms False by simp
  next
    case neg: False
    show ?thesis
    proof (cases "y \<le> 0")
      case True
      then obtain p where "representable p" "- y \<le> p" "p \<le> - x"
        using between [of "- y" "- x"] assms False by auto
      then have "representable (- p) \<and> x \<le> - p \<and> - p \<le> y"
        by (simp add: representable_uminus)
      then show ?thesis by blast
    next
      case False
      have "representable 0" using representable_of_int [of 0] by simp
      then show ?thesis using neg False by (intro exI [of _ 0]) simp
    qed
  qed
  then obtain p where "representable p" "x \<le> p" "p \<le> y" by blast
  then show ?thesis using round_real_le [of p x] le_round_real [of p y] by linarith
qed

lemma representable_MAX_FLOAT: "representable MAX_FLOAT"
  unfolding representable_def MAX_FLOAT_def
  by (rule exI [of _ "2 ^ 53 - 1"], rule exI [of _ 971]) simp

lemma round_real_above_MAX_FLOAT:
  assumes "MAX_FLOAT < x" and "x < MAX_FLOAT + 2 ^ 970"
  shows "round_real x = MAX_FLOAT"
proof -
  define p :: real where "p = 2 ^ 971"
  have p: "0 < p" "2 ^ 970 = p / 2" "pow2 971 = p" by (simp_all add: p_def)
  have M: "MAX_FLOAT = (2 ^ 53 - 1) * p" by (simp add: MAX_FLOAT_def p_def)
  have "pow2 1023 = 2 ^ 52 * p" by (simp add: p_def)
  moreover have "pow2 1024 = 2 ^ 53 * p" by (simp add: p_def)
  moreover have "2 ^ 52 * p \<le> (2 ^ 53 - 1) * p" using p(1) by simp
  moreover have "(2 ^ 53 - 1) * p + p / 2 < 2 ^ 53 * p" using p(1) by (simp add: algebra_simps)
  ultimately have "pow2 (971 + 52) \<le> \<bar>x\<bar>" "\<bar>x\<bar> < pow2 (971 + 53)"
    using assms unfolding M p(2) by simp_all
  then have "exponent x = 971" by (rule exponent_eqI) simp
  then have q: "quantum x = p" by (simp add: quantum_def p_def)
  define d where "d = x / p - (2 ^ 53 - 1)"
  have d: "0 < d" "d < 1 / 2"
    using assms p(1) unfolding M p(2) d_def by (simp_all add: field_simps)
  have xp: "x / p = real_of_int (2 ^ 53 - 1) + d" by (simp add: d_def)
  have "\<lfloor>x / p\<rfloor> = 2 ^ 53 - 1"
    unfolding xp using d by (intro floor_unique) simp_all
  then have "round_half_even (x / p) = 2 ^ 53 - 1"
    using d unfolding round_half_even_def Let_def xp by simp
  then show ?thesis by (simp add: round_real_def q M)
qed

lemma round_real_bounded:
  assumes "\<bar>x\<bar> < MAX_FLOAT + 2 ^ 970"
  shows "\<bar>round_real x\<bar> \<le> MAX_FLOAT"
proof -
  have up: "round_real u \<le> MAX_FLOAT" if "u < MAX_FLOAT + 2 ^ 970" for u
  proof (cases "u \<le> MAX_FLOAT")
    case True
    then show ?thesis by (rule round_real_le [OF representable_MAX_FLOAT])
  next
    case False
    then show ?thesis using round_real_above_MAX_FLOAT [of u] that by simp
  qed
  have "round_real x \<le> MAX_FLOAT" using assms by (intro up) linarith
  moreover have "round_real (- x) \<le> MAX_FLOAT" using assms by (intro up) linarith
  ultimately show ?thesis by (simp add: round_real_uminus abs_le_iff)
qed

section \<open>Facts about the geometry\<close>

lemma MAX_FLOAT_plus: "MAX_FLOAT + 2 ^ 970 = 2 ^ 1024 - 2 ^ 970"
  by (simp add: MAX_FLOAT_def)

lemma MAX_FLOAT_pos: "0 < MAX_FLOAT"
  by (simp add: MAX_FLOAT_def)


lemma round64_Finite:
  assumes "\<bar>x\<bar> < MAX_FLOAT + 2 ^ 970"
  shows "round64 x = Finite (round_real x)" and "\<bar>round_real x\<bar> \<le> MAX_FLOAT"
proof -
  show b: "\<bar>round_real x\<bar> \<le> MAX_FLOAT" using assms by (rule round_real_bounded)
  then show "round64 x = Finite (round_real x)"
    by (simp add: round64_def Let_def abs_le_iff not_less)
qed

lemma round_real_0 [simp]: "round_real 0 = 0"
  using round_real_of_int [of 0] by simp

lemma round_real_1 [simp]: "round_real 1 = 1"
  using round_real_of_int [of 1] by simp

lemma round_real_numeral:
  "numeral n < (2 ^ 53 :: int) \<Longrightarrow> round_real (numeral n) = numeral n"
  using round_real_of_int [of "numeral n"] by simp

lemma representable_numeral:
  "numeral n < (2 ^ 53 :: int) \<Longrightarrow> representable (numeral n)"
  using representable_of_int [of "numeral n"] by simp

lemma as_float_int:
  assumes "fits_float n"
  shows "as_float (Py_int n) = Inr (Finite (round_real (real_of_int n)))"
    and "\<bar>round_real (real_of_int n)\<bar> \<le> MAX_FLOAT"
proof -
  from assms have "real_of_int \<bar>n\<bar> < real_of_int (2 ^ 1024 - 2 ^ 970)"
    unfolding fits_float_def by (simp only: of_int_less_iff)
  then have "\<bar>real_of_int n\<bar> < MAX_FLOAT + 2 ^ 970"
    unfolding MAX_FLOAT_plus by simp
  from round64_Finite [OF this]
  show "as_float (Py_int n) = Inr (Finite (round_real (real_of_int n)))"
    and "\<bar>round_real (real_of_int n)\<bar> \<le> MAX_FLOAT"
    by (simp_all add: as_float_def)
qed

lemma as_float_small_int:
  "\<bar>n\<bar> < 2 ^ 53 \<Longrightarrow> as_float (Py_int n) = Inr (Finite (real_of_int n))"
proof -
  assume n: "\<bar>n\<bar> < 2 ^ 53"
  have "(2 :: int) ^ 53 \<le> 2 ^ 1024 - 2 ^ 970" by simp
  with n have "fits_float n" unfolding fits_float_def by linarith
  from as_float_int(1) [OF this] show ?thesis by (simp add: round_real_of_int [OF n])
qed

lemma as_float_too_large:
  assumes "2 ^ 1024 \<le> \<bar>n\<bar>"
  shows "as_float (Py_int n) = Inl OverflowError"
proof -
  have rep: "representable (2 ^ 1024)"
    using representable_pow2 [of 1024] by simp
  have M: "MAX_FLOAT < 2 ^ 1024" by (simp add: MAX_FLOAT_def)
  from assms have "real_of_int (2 ^ 1024) \<le> real_of_int \<bar>n\<bar>" by (simp only: of_int_le_iff)
  then have big: "2 ^ 1024 \<le> \<bar>real_of_int n\<bar>" by simp
  show ?thesis
  proof (cases "0 \<le> n")
    case True
    then have "2 ^ 1024 \<le> round_real (real_of_int n)"
      using big by (intro le_round_real rep) simp
    then have "round64 (real_of_int n) = PInf" using M by (simp add: round64_def Let_def)
    then show ?thesis by (simp add: as_float_def)
  next
    case False
    then have "round_real (real_of_int n) \<le> - (2 ^ 1024)"
      using big by (intro round_real_le representable_uminus rep) simp
    then have "round64 (real_of_int n) = NInf" using M MAX_FLOAT_pos
      by (simp add: round64_def Let_def)
    then show ?thesis by (simp add: as_float_def)
  qed
qed

lemma then_do_Inr [simp]: "then_do (Inr v) f = f v"
  by (simp add: then_do_def)

lemma then_do_Inl [simp]: "then_do (Inl e) f = Inl e"
  by (simp add: then_do_def)

lemma as_float_float [simp]: "as_float (Py_float f) = Inr f"
  by (simp add: as_float_def)


lemma small_below_overflow: "\<bar>x\<bar> \<le> MAX_FLOAT + 2 ^ 10 \<Longrightarrow> \<bar>x\<bar> < MAX_FLOAT + 2 ^ 970"
proof -
  have "(2 :: real) ^ 10 < 2 ^ 970" by simp
  then show "\<bar>x\<bar> \<le> MAX_FLOAT + 2 ^ 10 \<Longrightarrow> \<bar>x\<bar> < MAX_FLOAT + 2 ^ 970" by linarith
qed





lemma processing_to_screen_floats:
  assumes "\<bar>x\<bar> \<le> MAX_FLOAT" and "\<bar>y\<bar> \<le> MAX_FLOAT"
  shows "processing_to_screen (Py_float (Finite x)) (Py_float (Finite y)) =
     Inr (py_trunc (round_real (240 + x)), py_trunc (round_real (210 - y)))"
proof -
  have "\<bar>240 + x\<bar> \<le> MAX_FLOAT + 2 ^ 10" "\<bar>210 - y\<bar> \<le> MAX_FLOAT + 2 ^ 10"
    using assms by simp_all
  then have "\<bar>240 + x\<bar> < MAX_FLOAT + 2 ^ 970" "\<bar>210 - y\<bar> < MAX_FLOAT + 2 ^ 970"
    by (simp_all only: small_below_overflow)
  then have "round64 (240 + x) = Finite (round_real (240 + x))"
    "round64 (210 - y) = Finite (round_real (210 - y))"
    by (simp_all only: round64_Finite(1))
  moreover have "as_float (Py_int 240) = Inr (Finite 240)" "as_float (Py_int 210) = Inr (Finite 210)"
    using as_float_small_int [of 240] as_float_small_int [of 210] by simp_all
  ultimately show ?thesis
    by (simp add: processing_to_screen_def num_add_def num_sub_def num_op_def fsub_def
          int_of_num_def RADAR_CX_def RADAR_CY_def)
qed

lemma processing_to_screen_ints:
  "processing_to_screen (Py_int i) (Py_int j) = Inr (240 + i, 210 - j)"
  by (simp add: processing_to_screen_def num_add_def num_sub_def num_op_def int_of_num_def
        RADAR_CX_def RADAR_CY_def)



lemma py_trunc_unique: "is_truncation r n \<longleftrightarrow> py_trunc r = n"
proof (cases "r < 0")
  case True
  have eq: "\<lceil>r\<rceil> = n \<longleftrightarrow> real_of_int n - 1 < r \<and> r \<le> real_of_int n"
    by (auto simp: ceiling_eq_iff)
  have "\<lceil>r\<rceil> \<le> 0" using True by (simp add: ceiling_le_zero)
  then have neg: "real_of_int \<lceil>r\<rceil> \<le> 0" by linarith
  show ?thesis
  proof
    assume "is_truncation r n"
    then have "real_of_int n - 1 < r \<and> r \<le> real_of_int n"
      using True unfolding is_truncation_def by linarith
    then show "py_trunc r = n"
      using True eq by (simp add: py_trunc_def)
  next
    assume "py_trunc r = n"
    then have n: "\<lceil>r\<rceil> = n" using True by (simp add: py_trunc_def)
    with eq have "real_of_int n - 1 < r \<and> r \<le> real_of_int n" by simp
    moreover from n neg have "real_of_int n \<le> 0" by simp
    ultimately show "is_truncation r n"
      using True unfolding is_truncation_def by linarith
  qed
next
  case False
  have eq: "\<lfloor>r\<rfloor> = n \<longleftrightarrow> real_of_int n \<le> r \<and> r < real_of_int n + 1"
    by (auto simp: floor_eq_iff)
  have "0 \<le> \<lfloor>r\<rfloor>" using False by simp
  then have pos: "0 \<le> real_of_int \<lfloor>r\<rfloor>" by linarith
  show ?thesis
  proof
    assume "is_truncation r n"
    then have "real_of_int n \<le> r \<and> r < real_of_int n + 1"
      using False unfolding is_truncation_def by linarith
    then show "py_trunc r = n"
      using False eq by (simp add: py_trunc_def)
  next
    assume "py_trunc r = n"
    then have n: "\<lfloor>r\<rfloor> = n" using False by (simp add: py_trunc_def)
    with eq have "real_of_int n \<le> r \<and> r < real_of_int n + 1" by simp
    moreover from n pos have "0 \<le> real_of_int n" by simp
    ultimately show "is_truncation r n"
      using False unfolding is_truncation_def by linarith
  qed
qed

lemma py_trunc_of_int [simp]: "py_trunc (real_of_int n) = n"
  by (simp add: py_trunc_def)

lemma py_trunc_mono:
  assumes "x \<le> y"
  shows "py_trunc x \<le> py_trunc y"
proof (cases "y < 0")
  case True
  with assms show ?thesis by (simp add: py_trunc_def ceiling_mono)
next
  case False
  show ?thesis
  proof (cases "x < 0")
    case True
    then have "\<lceil>x\<rceil> \<le> 0" by (simp add: ceiling_le_zero)
    moreover have "0 \<le> \<lfloor>y\<rfloor>" using False by simp
    ultimately have "\<lceil>x\<rceil> \<le> \<lfloor>y\<rfloor>" by linarith
    then show ?thesis using True False by (simp add: py_trunc_def)
  next
    case x: False
    with False assms show ?thesis by (simp add: py_trunc_def floor_mono)
  qed
qed

lemma py_trunc_between:
  assumes "real_of_int lo \<le> x" "x \<le> real_of_int hi"
  shows "lo \<le> py_trunc x \<and> py_trunc x \<le> hi"
  using py_trunc_mono [OF assms(1)] py_trunc_mono [OF assms(2)] by simp

lemma round_real_between:
  assumes "real_of_int lo \<le> x" "x \<le> real_of_int hi" "\<bar>lo\<bar> < 2 ^ 53" "\<bar>hi\<bar> < 2 ^ 53"
  shows "real_of_int lo \<le> round_real x \<and> round_real x \<le> real_of_int hi"
  using le_round_real [OF representable_of_int [OF assms(3)] assms(1)]
    round_real_le [OF representable_of_int [OF assms(4)] assms(2)] by simp

lemma round_real_sum_near_241: "round_real (240 + (1 - 1 / 2 ^ 53)) = 241"
proof -
  define x :: real where "x = 240 + (1 - 1 / 2 ^ 53)"
  have "pow2 (- 45 + 52) \<le> \<bar>x\<bar>" "\<bar>x\<bar> < pow2 (- 45 + 53)"
    by (simp_all add: x_def)
  then have "exponent x = - 45" by (rule exponent_eqI) simp
  then have q: "quantum x = 1 / 2 ^ 45" by (simp add: quantum_def)
  have v: "x / (1 / 2 ^ 45) = real_of_int (241 * 2 ^ 45 - 1) + 255 / 256"
    by (simp add: x_def)
  have "\<lfloor>x / (1 / 2 ^ 45)\<rfloor> = 241 * 2 ^ 45 - 1"
    unfolding v by (intro floor_unique) simp_all
  then have "round_half_even (x / (1 / 2 ^ 45)) = 241 * 2 ^ 45"
    unfolding round_half_even_def Let_def v by simp
  then have "round_real x = 241" by (simp add: round_real_def q)
  then show ?thesis by (simp add: x_def)
qed

lemma pow2_minus_1: "pow2 (- 1) = 1 / 2"
  by (simp add: pow2_def powr_minus_divide)

lemma representable_half: "\<bar>n\<bar> < 2 ^ 53 \<Longrightarrow> representable (real_of_int n / 2)"
  unfolding representable_def
  by (rule exI [of _ n], rule exI [of _ "- 1"]) (simp add: pow2_minus_1)










lemma draw_object_angle_overflow:
  assumes "i_distance g < 40" and "2 ^ 1024 \<le> \<bar>i_angle g\<bar>"
  shows "draw_object m g =
     ([], Some OverflowError, g\<lparr>pix_distance := Py_int (i_distance g * 5)\<rparr>)"
  using assms(1) as_float_too_large [OF assms(2)]
  by (simp add: draw_object_def Let_def math_radians_def)

section \<open>The claims\<close>

text \<open>
  Claim C1. A message that does not parse as two integers is to leave the sample as it
  was, angle and distance alike; \<open>"30,12,99."\<close> is to change nothing. The source assigns
  \<open>i_angle\<close> before it parses the distance, so it does otherwise: with the sample
  \<open>(45, 12)\<close> in place and an empty buffer, the chunk \<open>"30,12,99."\<close> gives no sample,
  keeps the distance 12 and sets the angle to 30.
\<close>

theorem extra_comma_overwrites_angle:
  "read_serial (initial_globals\<lparr>i_angle := 45, i_distance := 12\<rparr>) (Waiting ''30,12,99.'') =
     ([Malformed (str ''30,12,99'')],
      initial_globals\<lparr>angle_str := str ''30'', distance_str := str ''12,99'',
                       i_angle := 30, i_distance := 12\<rparr>)"
proof -
  let ?g = "initial_globals\<lparr>i_angle := 45, i_distance := 12\<rparr>"
  have angle: "py_int (strip (str ''30'')) = Some 30"
    by (simp add: str_def py_int_eval)
  have distance: "py_int (strip (str ''12,99'')) = None"
    by (simp add: str_def py_int_eval)
  have msg: "str ''30,12,99'' = str ''30'' @ COMMA # str ''12,99''"
    by (simp add: str_def COMMA_def)
  have "parse_message ?g (str ''30'' @ COMMA # str ''12,99'') =
      (Malformed (str ''30'' @ COMMA # str ''12,99''),
       ?g\<lparr>angle_str := str ''30'', distance_str := str ''12,99'', i_angle := 30\<rparr>)"
    by (rule parse_message_bad_distance [OF _ angle distance]) (simp add: str_def COMMA_def)
  then have step: "parse_in_order ?g [str ''30,12,99''] =
      ([Malformed (str ''30,12,99'')],
       ?g\<lparr>angle_str := str ''30'', distance_str := str ''12,99'', i_angle := 30\<rparr>)"
    by (simp add: msg)
  have "read_serial ?g (Waiting ''30,12,99.'') =
      (fst (parse_in_order ?g [str ''30,12,99'']),
       (snd (parse_in_order ?g [str ''30,12,99'']))\<lparr>serial_buffer := []\<rparr>)"
    by (rule read_serial_messages)
       (simp_all add: initial_globals_def decode_utf8_ignore_ascii str_def DOT_def)
  then show ?thesis
    unfolding step by (simp add: initial_globals_def)
qed




text \<open>
  Claim C3, as stated for every byte sequence and every split. The bytes
  \<open>31 C3 A9 2C 32 2E\<close> are the text \<open>1\<close>, e with an acute accent, \<open>,2.\<close>: fed whole, the
  angle field does not parse and no sample is decoded. Split between \<open>C3\<close> and \<open>A9\<close>,
  each call ignores its half of the character, the buffer receives \<open>1,2.\<close> and the
  sample \<open>(1, 2)\<close> is decoded.
\<close>

theorem split_inside_character_counterexample:
  "fst (read_serial initial_globals
          (Waiting [CHR ''1'', CHR 0xC3, CHR 0xA9, CHR '','', CHR ''2'', CHR ''.'']))
     = [Malformed [49, 233, 44, 50]]
   \<and> fst (read_serial_calls initial_globals
          [Waiting [CHR ''1'', CHR 0xC3], Waiting [CHR 0xA9, CHR '','', CHR ''2'', CHR ''.'']])
     = [Ok 1 2]"
proof -
  let ?g = "initial_globals"
  have whole: "decode_utf8_ignore [CHR ''1'', CHR 0xC3, CHR 0xA9, CHR '','', CHR ''2'', CHR ''.'']
      = [49, 233, 44, 50, 46]"
    by (simp add: decode_utf8_ignore_def utf8_codepoints.simps is_continuation_def)
  have first: "decode_utf8_ignore [CHR ''1'', CHR 0xC3] = [49]"
    by (simp add: decode_utf8_ignore_def utf8_codepoints.simps is_continuation_def)
  have second: "decode_utf8_ignore [CHR 0xA9, CHR '','', CHR ''2'', CHR ''.''] = [44, 50, 46]"
    by (simp add: decode_utf8_ignore_def utf8_codepoints.simps is_continuation_def)
  have "py_int (strip [49, 233]) = None"
    by (simp add: py_int_eval to_ascii_e_acute)
  then have bad: "parse_message ?g ([49, 233] @ COMMA # [50]) =
      (Malformed ([49, 233] @ COMMA # [50]), ?g\<lparr>angle_str := [49, 233], distance_str := [50]\<rparr>)"
    by (intro parse_message_bad_angle) (simp_all add: COMMA_def)
  have "read_serial ?g (Waiting [CHR ''1'', CHR 0xC3, CHR 0xA9, CHR '','', CHR ''2'', CHR ''.'']) =
      (fst (parse_in_order ?g [[49, 233, 44, 50]]),
       (snd (parse_in_order ?g [[49, 233, 44, 50]]))\<lparr>serial_buffer := []\<rparr>)"
    by (rule read_serial_messages) (simp_all add: whole initial_globals_def DOT_def)
  with bad have a: "fst (read_serial ?g
      (Waiting [CHR ''1'', CHR 0xC3, CHR 0xA9, CHR '','', CHR ''2'', CHR ''.''])) =
      [Malformed [49, 233, 44, 50]]"
    by (simp add: COMMA_def)
  let ?g1 = "?g\<lparr>serial_buffer := [49]\<rparr>"
  have one: "read_serial ?g (Waiting [CHR ''1'', CHR 0xC3]) = ([], ?g1)"
    by (simp add: read_serial_nonempty first initial_globals_def process_messages_no_dot DOT_def)
  have "py_int (strip [49]) = Some 1" "py_int (strip [50]) = Some 2"
    by (simp_all add: py_int_eval)
  then have good: "parse_message ?g1 ([49] @ COMMA # [50]) =
      (Ok 1 2, ?g1\<lparr>angle_str := [49], distance_str := [50], i_angle := 1, i_distance := 2\<rparr>)"
    by (intro parse_message_ok) (simp_all add: COMMA_def)
  have "read_serial ?g1 (Waiting [CHR 0xA9, CHR '','', CHR ''2'', CHR ''.'']) =
      (fst (parse_in_order ?g1 [[49, 44, 50]]),
       (snd (parse_in_order ?g1 [[49, 44, 50]]))\<lparr>serial_buffer := []\<rparr>)"
    by (rule read_serial_messages) (simp_all add: second initial_globals_def DOT_def)
  with good have two:
    "fst (read_serial ?g1 (Waiting [CHR 0xA9, CHR '','', CHR ''2'', CHR ''.''])) = [Ok 1 2]"
    by (simp add: COMMA_def)
  from a one two show ?thesis by (simp add: Let_def)
qed

text \<open>
  Claim C3, amended: for bytes that are all ASCII, as the wire format has them, feeding
  the chunks one call after the other gives the same results in the same order and the
  same globals as feeding their concatenation in one call, from any globals.
\<close>

theorem ascii_chunks_as_one:
  assumes "\<forall>b\<in>set (concat chunks). (of_char b :: nat) < 128"
  shows "read_serial_calls g (map Waiting chunks) = read_serial g (Waiting (concat chunks))"
  using assms by (rule read_serial_calls_concat)

text \<open>\<open>"07,1"\<close> and then \<open>"5."\<close> give the one sample \<open>(7, 15)\<close>.\<close>

theorem ascii_chunks_as_one_witness:
  "read_serial_calls initial_globals (map Waiting [''07,1'', ''5.'']) =
     ([Ok 7 15],
      initial_globals\<lparr>angle_str := str ''07'', distance_str := str ''15'',
                       i_angle := 7, i_distance := 15\<rparr>)"
proof -
  have ascii: "\<forall>b\<in>set (concat [''07,1'', ''5.'']). (of_char b :: nat) < 128" by simp
  have "read_serial initial_globals (Waiting (concat [''07,1'', ''5.''])) =
      (fst (parse_in_order initial_globals [str ''07,15'']),
       (snd (parse_in_order initial_globals [str ''07,15'']))\<lparr>serial_buffer := []\<rparr>)"
    by (rule read_serial_messages)
       (simp_all add: initial_globals_def decode_utf8_ignore_ascii str_def DOT_def)
  then have "read_serial initial_globals (Waiting (concat [''07,1'', ''5.''])) =
     ([Ok 7 15],
      initial_globals\<lparr>angle_str := str ''07'', distance_str := str ''15'',
                       i_angle := 7, i_distance := 15\<rparr>)"
    by (simp add: parse_07_15 initial_globals_def)
  with ascii_chunks_as_one [OF ascii, of initial_globals] show ?thesis by simp
qed

text \<open>
  Claim C4. One call that receives several complete messages, each ended by \<open>'.'\<close>,
  handles all of them in order within that call and leaves the buffer empty; what the
  buffer held of an unfinished message before the call is the beginning of the first.
\<close>

theorem chunk_of_messages_in_order:
  assumes "DOT \<notin> set (serial_buffer g)"
    and "\<forall>m\<in>set (m1 # ms). DOT \<notin> set (str m) \<and> (\<forall>b\<in>set m. (of_char b :: nat) < 128)"
  shows "read_serial g (Waiting (concat (map (\<lambda>m. m @ ''.'') (m1 # ms)))) =
     (fst (parse_in_order g ((serial_buffer g @ str m1) # map str ms)),
      (snd (parse_in_order g ((serial_buffer g @ str m1) # map str ms)))\<lparr>serial_buffer := []\<rparr>)"
proof (rule read_serial_messages)
  show "concat (map (\<lambda>m. m @ ''.'') (m1 # ms)) \<noteq> []" by simp
next
  have ascii: "\<forall>b\<in>set (concat (map (\<lambda>m. m @ ''.'') (m1 # ms))). (of_char b :: nat) < 128"
    using assms(2) by auto
  have "map of_char (concat (map (\<lambda>m. m @ ''.'') ms)) =
      concat (map (\<lambda>m. m @ [DOT]) (map str ms))" for ms
    by (induction ms) (simp_all add: str_def DOT_def)
  then have "map of_char (concat (map (\<lambda>m. m @ ''.'') (m1 # ms))) =
      concat (map (\<lambda>m. m @ [DOT]) (map str (m1 # ms)))" .
  then show "serial_buffer g @ decode_utf8_ignore (concat (map (\<lambda>m. m @ ''.'') (m1 # ms))) =
      concat (map (\<lambda>m. m @ [DOT]) ((serial_buffer g @ str m1) # map str ms)) @ []"
    using ascii by (simp add: decode_utf8_ignore_ascii)
next
  show "\<forall>m\<in>set ((serial_buffer g @ str m1) # map str ms). DOT \<notin> set m"
    using assms by simp
next
  show "DOT \<notin> set []" by simp
qed

text \<open>
  \<open>"010,005.020,999."\<close> in one call decodes \<open>(10, 5)\<close> and then \<open>(20, 999)\<close>, and the
  sample is \<open>(20, 999)\<close> afterwards.
\<close>

theorem chunk_of_messages_in_order_witness:
  "read_serial initial_globals (Waiting ''010,005.020,999.'') =
     ([Ok 10 5, Ok 20 999],
      initial_globals\<lparr>angle_str := str ''020'', distance_str := str ''999'',
                       i_angle := 20, i_distance := 999\<rparr>)"
proof -
  have a: "DOT \<notin> set (serial_buffer initial_globals)" by (simp add: initial_globals_def)
  have b: "\<forall>m\<in>set [''010,005'', ''020,999''].
      DOT \<notin> set (str m) \<and> (\<forall>b\<in>set m. (of_char b :: nat) < 128)"
    by (simp add: str_def DOT_def)
  from chunk_of_messages_in_order [OF a b]
  have "read_serial initial_globals (Waiting ''010,005.020,999.'') =
      (fst (parse_in_order initial_globals [str ''010,005'', str ''020,999'']),
       (snd (parse_in_order initial_globals [str ''010,005'', str ''020,999'']))
         \<lparr>serial_buffer := []\<rparr>)"
    by (simp add: initial_globals_def)
  then show ?thesis
    by (simp add: parse_010_005 parse_020_999 Let_def initial_globals_def)
qed




text \<open>
  Claim C8. The status overlay is to show the distance placeholder exactly when the
  status reads out of range. The status of \<open>draw_text\<close> compares with \<open>> 40\<close> and its
  distance text with \<open>< 40\<close>: at the distance 40 the status reads \<open>In\<close> and the distance
  is the placeholder.
\<close>

theorem status_and_distance_disagree_at_40:
  "status_text (initial_globals\<lparr>i_distance := 40\<rparr>) = str ''In''
   \<and> distance_text (initial_globals\<lparr>i_distance := 40\<rparr>) = (str ''D:---'', GREEN_TEXT)
   \<and> Blit_text Font_small (str ''In'') RED (5, 240)
        \<in> set (fst (draw_text m (initial_globals\<lparr>i_distance := 40\<rparr>)))
   \<and> Blit_text Font_small (str ''D:---'') GREEN_TEXT (5, 270)
        \<in> set (fst (draw_text m (initial_globals\<lparr>i_distance := 40\<rparr>)))"
  by (simp add: status_text_def distance_text_def draw_text_def Let_def initial_globals_def)

text \<open>
  Claim C9, as stated: for finite local coordinates the pixel is \<open>Cx + xLocal\<close> and
  \<open>Cy - yLocal\<close>, each truncated. The source adds in binary64 and truncates the
  rounded sum: for \<open>xLocal = 1 - 2\<^sup>-\<^sup>5\<^sup>3\<close>, a float, the sum \<open>240 + xLocal\<close> rounds
  to 241, which is not the truncation of the exact sum (240).
\<close>

theorem to_screen_rounds_counterexample:
  "processing_to_screen (Py_float (Finite (1 - 1 / 2 ^ 53))) (Py_float (Finite 0)) = Inr (241, 210)
   \<and> \<not> is_truncation (240 + (1 - 1 / 2 ^ 53)) 241"
proof -
  have e: "processing_to_screen (Py_float (Finite (1 - 1 / 2 ^ 53))) (Py_float (Finite 0)) =
      Inr (py_trunc (round_real (240 + (1 - 1 / 2 ^ 53))), py_trunc (round_real (210 - 0)))"
    by (rule processing_to_screen_floats) (simp_all add: MAX_FLOAT_def)
  have t: "py_trunc (round_real (240 + (1 - 1 / 2 ^ 53))) = 241"
    unfolding round_real_sum_near_241 using py_trunc_of_int [of 241] by simp
  have u: "py_trunc (round_real (210 - 0)) = 210"
    using round_real_of_int [of 210] py_trunc_of_int [of 210] by simp
  have "\<not> is_truncation (240 + (1 - 1 / 2 ^ 53)) 241"
    by (simp add: is_truncation_def)
  with e t u show ?thesis by (simp only: simp_thms)
qed

text \<open>
  Claim C9, amended: the centre is \<open>(240, 210)\<close>. For finite float coordinates
  \<open>processing_to_screen\<close> returns the pair of pixels that are the truncations
  towards zero of the binary64 sums \<open>240 + x_local\<close> and \<open>210 - y_local\<close>, that is of
  the exact sums rounded to the nearest float, ties to even; and no other pair. For
  integer coordinates the sums are exact.
\<close>

theorem to_screen_contract:
  assumes "\<bar>x_local\<bar> \<le> MAX_FLOAT" and "\<bar>y_local\<bar> \<le> MAX_FLOAT"
  shows "RADAR_CX = 240 \<and> RADAR_CY = 210
   \<and> (processing_to_screen (Py_float (Finite x_local)) (Py_float (Finite y_local))
         = Inr (pixel_x, pixel_y) \<longleftrightarrow>
        is_truncation (round_real (240 + x_local)) pixel_x
        \<and> is_truncation (round_real (210 - y_local)) pixel_y)
   \<and> processing_to_screen (Py_int i) (Py_int j) = Inr (240 + i, 210 - j)"
  by (simp add: processing_to_screen_floats [OF assms] processing_to_screen_ints
        RADAR_CX_def RADAR_CY_def py_trunc_unique)

text \<open>The halves \<open>(0.5, 0.5)\<close> give \<open>(240, 209)\<close>; the integers \<open>(-200, 0)\<close> give \<open>(40, 210)\<close>.\<close>

theorem to_screen_contract_witness:
  "\<bar>1 / 2 :: real\<bar> \<le> MAX_FLOAT
   \<and> processing_to_screen (Py_float (Finite (1 / 2))) (Py_float (Finite (1 / 2))) = Inr (240, 209)
   \<and> processing_to_screen (Py_int (- 200)) (Py_int 0) = Inr (40, 210)"
proof -
  have a: "\<bar>1 / 2 :: real\<bar> \<le> MAX_FLOAT" by (simp add: MAX_FLOAT_def)
  have "round_real (481 / 2) = 481 / 2" "round_real (419 / 2) = 419 / 2"
    using round_real_representable [OF representable_half [of 481]]
      round_real_representable [OF representable_half [of 419]] by simp_all
  then have t: "is_truncation (round_real (240 + 1 / 2)) 240
      \<and> is_truncation (round_real (210 - 1 / 2)) 209"
    by (simp add: is_truncation_def)
  note c = to_screen_contract [OF a a, of 240 209 "- 200" 0]
  from c have "processing_to_screen (Py_float (Finite (1 / 2))) (Py_float (Finite (1 / 2)))
        = Inr (240, 209) \<longleftrightarrow>
      is_truncation (round_real (240 + 1 / 2)) 240
      \<and> is_truncation (round_real (210 - 1 / 2)) 209"
    by blast
  with t have p: "processing_to_screen (Py_float (Finite (1 / 2))) (Py_float (Finite (1 / 2)))
      = Inr (240, 209)"
    by blast
  from c have "processing_to_screen (Py_int (- 200)) (Py_int 0) = Inr (240 + - 200, 210 - 0)"
    by blast
  then have "processing_to_screen (Py_int (- 200)) (Py_int 0) = Inr (40, 210)"
    by simp
  with a p show ?thesis by blast
qed

text \<open>
  Claim C10. After every call of \<open>read_serial\<close>, starting from the initial globals, the
  buffer holds no terminator: each call that appends to the buffer runs the loop until
  no \<open>'.'\<close> is left, and the other calls leave the buffer alone.
\<close>

theorem no_terminator_left_in_buffer:
  "DOT \<notin> set (serial_buffer (snd (read_serial_calls initial_globals ts)))"
  by (rule read_serial_calls_consumes) (simp add: initial_globals_def)

end
